theory Spec2Isabelle
  imports Main "HOL-Library.Word" "HOL-Library.Multiset"
begin

unbundle bit_operations_syntax

section \<open>RISC-V ISA string parsing and hwcap aggregation (arch/riscv/kernel/cpufeature.c)\<close>

subsection \<open>C data: characters, strings, machine integers\<close>

text \<open>
  \<open>unsigned long\<close> is modelled as a 64-bit word and \<open>unsigned int\<close> as a 32-bit word.
  The parser only ever sets bits 0..25 of an \<open>unsigned long\<close>, so the same values arise
  on a 32-bit kernel.
\<close>

type_synonym ulong = "64 word"
type_synonym uint = "32 word"

definition UINT_MAX :: uint where
  "UINT_MAX = 0xFFFFFFFF"

text \<open>
  A \<open>const char *\<close> is modelled as the list of the bytes it points to, up to the end of
  the buffer; the terminating NUL is the byte read at the end of the list. A cursor into
  the string is an offset from that pointer.
\<close>

definition NUL :: char where
  "NUL = CHR 0x00"

definition peek :: "string \<Rightarrow> nat \<Rightarrow> char" where
  "peek s i = (if i < length s then s ! i else NUL)"

text \<open>
  Modelled from the spec: \<open>isdigit\<close> and \<open>islower\<close> (linux/ctype.h) are not in src/.
  The spec speaks of digits and of lowercase letters \<open>a\<close>..\<open>z\<close>.
\<close>

definition isdigit :: "char \<Rightarrow> bool" where
  "isdigit c = (48 \<le> (of_char c :: nat) \<and> (of_char c :: nat) \<le> 57)"

definition islower :: "char \<Rightarrow> bool" where
  "islower c = (97 \<le> (of_char c :: nat) \<and> (of_char c :: nat) \<le> 122)"

subsection \<open>\<open>_decimal_part_to_uint\<close>\<close>

datatype errno = EINVAL | ERANGE

text \<open>The body of the \<open>do ... while (isdigit(*++s))\<close> loop, entered with \<open>s\<close> on a digit.\<close>

function decimal_loop :: "string \<Rightarrow> nat \<Rightarrow> uint \<Rightarrow> errno + uint" where
  "decimal_loop s i val =
     (let d = (of_nat (of_char (peek s i) - of_char (CHR ''0'')) :: uint) in
      if val > (UINT_MAX - d) div 10 then Inl ERANGE
      else if isdigit (peek s (Suc i)) then decimal_loop s (Suc i) (val * 10 + d)
      else Inr (val * 10 + d))"
  by pat_completeness auto
termination
  by (relation "measure (\<lambda>(s, i, val). length s - i)")
     (auto simp: peek_def isdigit_def NUL_def split: if_splits)

declare decimal_loop.simps [simp del]

text \<open>On failure the C function leaves \<open>*res\<close> untouched; the caller keeps its old value.\<close>

definition decimal_part_to_uint :: "string \<Rightarrow> nat \<Rightarrow> errno + uint" where
  "decimal_part_to_uint s i =
     (if \<not> isdigit (peek s i) then Inl EINVAL else decimal_loop s i 0)"

subsection \<open>One extension token\<close>

text \<open>
  The locals of one iteration of the token loop. Offsets are relative to \<open>ext\<close>, the
  first character of the token: \<open>isa_off\<close> is \<open>isa - ext\<close> when the \<open>switch\<close> is left,
  \<open>ext_end\<close> is \<open>ext_end - ext\<close>.
\<close>

record ext_token =
  isa_off :: nat
  ext_end :: nat
  ext_major :: uint
  ext_minor :: uint
  ext_long :: bool
  ext_err :: bool
  ext_err_ver :: bool

text \<open>\<open>for (; *isa && *isa != '_'; ++isa) if (!islower(*isa) && !isdigit(*isa)) ext_err = true;\<close>\<close>

function long_run :: "string \<Rightarrow> nat \<Rightarrow> bool \<Rightarrow> nat \<times> bool" where
  "long_run s isa err =
     (if peek s isa \<noteq> NUL \<and> peek s isa \<noteq> CHR ''_''
      then long_run s (Suc isa) (err \<or> (\<not> islower (peek s isa) \<and> \<not> isdigit (peek s isa)))
      else (isa, err))"
  by pat_completeness auto
termination
  by (relation "measure (\<lambda>(s, isa, err). length s - isa)")
     (auto simp: peek_def split: if_splits)

declare long_run.simps [simp del]

text \<open>\<open>while (isdigit(*++isa)) ;\<close> is \<open>skip_digits s (Suc isa)\<close>.\<close>

function skip_digits :: "string \<Rightarrow> nat \<Rightarrow> nat" where
  "skip_digits s isa = (if isdigit (peek s isa) then skip_digits s (Suc isa) else isa)"
  by pat_completeness auto
termination
  by (relation "measure (\<lambda>(s, isa). length s - isa)")
     (auto simp: peek_def isdigit_def NUL_def split: if_splits)

declare skip_digits.simps [simp del]

text \<open>
  \<open>while (isdigit(*--ext_end)) ;\<close> started at offset \<open>e\<close>. The scan stops at the latest at
  offset 0, which holds the non-digit \<open>s\<close>, \<open>x\<close> or \<open>z\<close> (lemma \<open>back_digits_stops\<close>),
  so the first equation is never reached from \<open>scan_long\<close>.
\<close>

fun back_digits :: "string \<Rightarrow> nat \<Rightarrow> nat" where
  "back_digits s 0 = 0"
| "back_digits s (Suc e) = (if isdigit (peek s e) then back_digits s e else e)"

text \<open>The \<open>case 's': case 'x': case 'z':\<close> branch.\<close>

definition scan_long :: "string \<Rightarrow> ext_token" where
  "scan_long s =
     (let (isa, err) = long_run s 1 False;
          e0 = isa;
          t0 = \<lparr>isa_off = isa, ext_end = e0, ext_major = UINT_MAX, ext_minor = 0,
                ext_long = True, ext_err = err, ext_err_ver = False\<rparr>
      in if err then t0
         else if \<not> isdigit (peek s (e0 - 1)) then t0
         else
           let e1 = back_digits s e0;
               ext_vpair = (peek s e1 = CHR ''p'' \<and> isdigit (peek s (e1 - 1)));
               t1 = (case decimal_part_to_uint s (e1 + 1) of
                       Inr v \<Rightarrow> t0\<lparr>ext_major := v\<rparr>
                     | Inl _ \<Rightarrow> t0\<lparr>ext_err_ver := True\<rparr>)
           in if \<not> ext_vpair then t1\<lparr>ext_end := e1 + 1\<rparr>
              else
                let t2 = t1\<lparr>ext_minor := ext_major t1\<rparr>;
                    e2 = back_digits s e1 + 1
                in (case decimal_part_to_uint s e2 of
                      Inr v \<Rightarrow> t2\<lparr>ext_end := e2, ext_major := v,
                                  ext_err_ver := ext_err_ver t2 \<or> v = UINT_MAX\<rparr>
                    | Inl _ \<Rightarrow> t2\<lparr>ext_end := e2, ext_err_ver := True\<rparr>))"

text \<open>The \<open>default:\<close> branch.\<close>

definition scan_short :: "string \<Rightarrow> ext_token" where
  "scan_short s =
     (let t0 = \<lparr>isa_off = 1, ext_end = 1, ext_major = UINT_MAX, ext_minor = 0,
                ext_long = False, ext_err = False, ext_err_ver = False\<rparr>
      in if \<not> islower (peek s 0) then t0\<lparr>ext_err := True\<rparr>
         else if \<not> isdigit (peek s 1) then t0
         else
           let t1 = (case decimal_part_to_uint s 1 of
                       Inr v \<Rightarrow> t0\<lparr>ext_major := v\<rparr>
                     | Inl _ \<Rightarrow> t0);
               t2 = t1\<lparr>ext_err_ver := (ext_major t1 = UINT_MAX)\<rparr>;
               isa1 = skip_digits s 2
           in if peek s isa1 \<noteq> CHR ''p'' then t2\<lparr>isa_off := isa1\<rparr>
              else if \<not> isdigit (peek s (isa1 + 1)) then t2\<lparr>isa_off := isa1\<rparr>
              else
                let t3 = (case decimal_part_to_uint s (isa1 + 1) of
                            Inr v \<Rightarrow> t2\<lparr>ext_minor := v\<rparr>
                          | Inl _ \<Rightarrow> t2\<lparr>ext_err_ver := True\<rparr>)
                in t3\<lparr>isa_off := skip_digits s (isa1 + 2)\<rparr>)"

text \<open>\<open>switch (*ext)\<close>, with \<open>ext = isa++\<close> already done.\<close>

definition scan_ext :: "string \<Rightarrow> ext_token" where
  "scan_ext s =
     (if peek s 0 = CHR ''s'' \<or> peek s 0 = CHR ''x'' \<or> peek s 0 = CHR ''z''
      then scan_long s else scan_short s)"

subsection \<open>The capability table and the per-hart token loop\<close>

text \<open>
  Modelled from the spec: the \<open>COMPAT_HWCAP_ISA_*\<close> constants (asm/hwcap.h) are not in
  src/. The spec maps the six legacy letters to disjoint capability-mask bits and renders
  the mask by its letter positions: each constant is the single bit at the position of
  its letter.
\<close>

definition COMPAT_HWCAP_ISA_I :: ulong where "COMPAT_HWCAP_ISA_I = push_bit 8 1"
definition COMPAT_HWCAP_ISA_M :: ulong where "COMPAT_HWCAP_ISA_M = push_bit 12 1"
definition COMPAT_HWCAP_ISA_A :: ulong where "COMPAT_HWCAP_ISA_A = push_bit 0 1"
definition COMPAT_HWCAP_ISA_F :: ulong where "COMPAT_HWCAP_ISA_F = push_bit 5 1"
definition COMPAT_HWCAP_ISA_D :: ulong where "COMPAT_HWCAP_ISA_D = push_bit 3 1"
definition COMPAT_HWCAP_ISA_C :: ulong where "COMPAT_HWCAP_ISA_C = push_bit 2 1"

text \<open>The static table \<open>isa2hwcap[256]\<close>, zero except for the twelve entries assigned.\<close>

definition isa2hwcap :: "char \<Rightarrow> ulong" where
  "isa2hwcap c =
     (if c = CHR ''i'' \<or> c = CHR ''I'' then COMPAT_HWCAP_ISA_I
      else if c = CHR ''m'' \<or> c = CHR ''M'' then COMPAT_HWCAP_ISA_M
      else if c = CHR ''a'' \<or> c = CHR ''A'' then COMPAT_HWCAP_ISA_A
      else if c = CHR ''f'' \<or> c = CHR ''F'' then COMPAT_HWCAP_ISA_F
      else if c = CHR ''d'' \<or> c = CHR ''D'' then COMPAT_HWCAP_ISA_D
      else if c = CHR ''c'' \<or> c = CHR ''C'' then COMPAT_HWCAP_ISA_C
      else 0)"

text \<open>The lines written by \<open>pr_info\<close> and \<open>pr_warn\<close>, one constructor per format string.\<close>

datatype printk =
    Feature_H
  | Feature_Zba
  | Feature_ZiHintPause
  | Feature_Zksed
  | Warn_no_isa
  | Info_F_without_D
  | Info_ISA_extensions string
  | Info_ELF_capabilities string

text \<open>The per-hart locals \<open>this_hwcap\<close>, \<open>this_isa\<close>, and the lines written so far.\<close>

record hart_state =
  this_hwcap :: ulong
  this_isa :: ulong
  hart_log :: "printk list"

text \<open>\<open>MATCH_EXT(name)\<close>: the name span \<open>ext .. ext_end\<close> equals \<open>name\<close>.\<close>

definition MATCH_EXT :: "string \<Rightarrow> ext_token \<Rightarrow> string \<Rightarrow> bool" where
  "MATCH_EXT s t name = (ext_end t = length name \<and> take (length name) s = name)"

definition feature_tests :: "string \<Rightarrow> ext_token \<Rightarrow> printk list" where
  "feature_tests s t =
     (if MATCH_EXT s t ''h'' then [Feature_H] else []) @
     (if MATCH_EXT s t ''zba'' then [Feature_Zba] else []) @
     (if MATCH_EXT s t ''zihintpause'' then [Feature_ZiHintPause] else []) @
     (if MATCH_EXT s t ''zksed'' then [Feature_Zksed] else [])"

text \<open>The tail of the loop body, from \<open>if (unlikely(ext_err)) continue;\<close> on.\<close>

definition record_ext :: "string \<Rightarrow> ext_token \<Rightarrow> hart_state \<Rightarrow> hart_state" where
  "record_ext s t st =
     (if ext_err t then st
      else st\<lparr>this_hwcap := this_hwcap st OR isa2hwcap (peek s 0),
              this_isa := (if \<not> ext_long t
                           then this_isa st OR push_bit (of_char (peek s 0) - of_char (CHR ''a'')) 1
                           else this_isa st),
              hart_log := hart_log st @ feature_tests s t\<rparr>)"

text \<open>
  Where the next iteration starts, as an offset from \<open>ext\<close>: \<open>if (*isa != '_') --isa;\<close>
  at the end of the body, then the \<open>++isa\<close> of the \<open>for\<close>.
\<close>

definition next_isa :: "string \<Rightarrow> nat" where
  "next_isa s =
     (let isa = isa_off (scan_ext s);
          isa' = (if peek s isa \<noteq> CHR ''_'' then isa - 1 else isa)
      in Suc isa')"

text \<open>\<open>for (; *isa; ++isa) { ... }\<close>, the argument being the string \<open>isa\<close> points to.\<close>

function parse_isa :: "string \<Rightarrow> hart_state \<Rightarrow> hart_state" where
  "parse_isa s st =
     (if peek s 0 = NUL then st
      else parse_isa (drop (next_isa s) s) (record_ext s (scan_ext s) st))"
  by pat_completeness auto
termination
  by (relation "measure (\<lambda>(s, st). length s)")
     (auto simp: peek_def next_isa_def Let_def split: if_splits)

declare parse_isa.simps [simp del]

text \<open>The kernel is built for one of the two word widths.\<close>

datatype xlen_config = CONFIG_32BIT | CONFIG_64BIT

definition strip_prefix :: "xlen_config \<Rightarrow> string \<Rightarrow> string" where
  "strip_prefix cfg isa =
     (case cfg of
        CONFIG_32BIT \<Rightarrow> (if take 4 isa = ''rv32'' then drop 4 isa else isa)
      | CONFIG_64BIT \<Rightarrow> (if take 4 isa = ''rv64'' then drop 4 isa else isa))"

definition parse_hart :: "xlen_config \<Rightarrow> string \<Rightarrow> printk list \<Rightarrow> hart_state" where
  "parse_hart cfg isa lg =
     parse_isa (strip_prefix cfg isa) \<lparr>this_hwcap = 0, this_isa = 0, hart_log = lg\<rparr>"

subsection \<open>\<open>riscv_fill_hwcap\<close>: folding the harts, the F/D rule, the boot lines\<close>

text \<open>
  What the device tree gives for one cpu node: whether \<open>riscv_of_processor_hartid\<close>
  returned a hart id (not a negative value), and the \<open>riscv,isa\<close> property if
  \<open>of_property_read_string\<close> found one.
\<close>

record cpu_node =
  hartid_ok :: bool
  riscv_isa_prop :: "string option"

text \<open>
  The globals written by \<open>riscv_fill_hwcap\<close>. \<open>riscv_isa\<close> is word 0 of the host
  bitmap: after \<open>bitmap_zero\<close> it is the only word the function writes.
  \<open>cpu_hwcap_fpu\<close> is the static key of a kernel built with \<open>CONFIG_FPU\<close>.
\<close>

record hwcap_state =
  elf_hwcap :: ulong
  riscv_isa :: ulong
  cpu_hwcap_fpu :: bool
  kernel_log :: "printk list"

definition hwcap_init :: hwcap_state where
  "hwcap_init = \<lparr>elf_hwcap = 0, riscv_isa = 0, cpu_hwcap_fpu = False, kernel_log = []\<rparr>"

text \<open>The body of \<open>for_each_of_cpu_node(node)\<close>.\<close>

definition hart_step :: "xlen_config \<Rightarrow> hwcap_state \<Rightarrow> cpu_node \<Rightarrow> hwcap_state" where
  "hart_step cfg g node =
     (if \<not> hartid_ok node then g
      else case riscv_isa_prop node of
        None \<Rightarrow> g\<lparr>kernel_log := kernel_log g @ [Warn_no_isa]\<rparr>
      | Some isa \<Rightarrow>
          let h = parse_hart cfg isa (kernel_log g)
          in g\<lparr>elf_hwcap := (if elf_hwcap g \<noteq> 0 then elf_hwcap g AND this_hwcap h
                               else this_hwcap h),
                riscv_isa := (if riscv_isa g \<noteq> 0 then riscv_isa g AND this_isa h
                               else this_isa h),
                kernel_log := hart_log h\<rparr>)"

definition NUM_ALPHA_EXTS :: nat where
  "NUM_ALPHA_EXTS = of_char (CHR ''z'') - of_char (CHR ''a'') + 1"

text \<open>\<open>BIT_MASK(nr)\<close> is \<open>1UL << (nr % BITS_PER_LONG)\<close>.\<close>

definition BIT_MASK :: "nat \<Rightarrow> ulong" where
  "BIT_MASK nr = push_bit (nr mod 64) 1"

text \<open>
  \<open>for (i = 0, j = 0; i < NUM_ALPHA_EXTS; i++) if (w & BIT_MASK(i)) print_str[j++] = 'a' + i;\<close>
  on the buffer \<open>print_str\<close>.
\<close>

function print_loop :: "ulong \<Rightarrow> nat \<Rightarrow> nat \<Rightarrow> string \<Rightarrow> string" where
  "print_loop w i j print_str =
     (if i < NUM_ALPHA_EXTS
      then (if w AND BIT_MASK i \<noteq> 0
            then print_loop w (Suc i) (Suc j) (print_str[j := char_of (of_char (CHR ''a'') + i)])
            else print_loop w (Suc i) j print_str)
      else print_str)"
  by pat_completeness auto
termination
  by (relation "measure (\<lambda>(w, i, j, print_str). NUM_ALPHA_EXTS - i)") auto

declare print_loop.simps [simp del]

text \<open>What \<open>%s\<close> prints: the bytes before the first NUL.\<close>

definition c_string :: "string \<Rightarrow> string" where
  "c_string buf = takeWhile (\<lambda>c. c \<noteq> NUL) buf"

text \<open>\<open>memset(print_str, 0, sizeof(print_str))\<close>, the loop, and the string printed.\<close>

definition print_letters :: "ulong \<Rightarrow> string" where
  "print_letters w = c_string (print_loop w 0 0 (replicate (NUM_ALPHA_EXTS + 1) NUL))"

text \<open>The code after the node loop.\<close>

definition hwcap_finish :: "hwcap_state \<Rightarrow> hwcap_state" where
  "hwcap_finish g =
     (let g1 = (if elf_hwcap g AND COMPAT_HWCAP_ISA_F \<noteq> 0 \<and>
                   \<not> (elf_hwcap g AND COMPAT_HWCAP_ISA_D \<noteq> 0)
                then g\<lparr>elf_hwcap := elf_hwcap g AND NOT COMPAT_HWCAP_ISA_F,
                        kernel_log := kernel_log g @ [Info_F_without_D]\<rparr>
                else g);
          g2 = g1\<lparr>kernel_log := kernel_log g1 @
                     [Info_ISA_extensions (print_letters (riscv_isa g1)),
                      Info_ELF_capabilities (print_letters (elf_hwcap g1))]\<rparr>
      in if elf_hwcap g2 AND (COMPAT_HWCAP_ISA_F OR COMPAT_HWCAP_ISA_D) \<noteq> 0
         then g2\<lparr>cpu_hwcap_fpu := True\<rparr> else g2)"

definition riscv_fill_hwcap :: "xlen_config \<Rightarrow> cpu_node list \<Rightarrow> hwcap_state" where
  "riscv_fill_hwcap cfg nodes = hwcap_finish (foldl (hart_step cfg) hwcap_init nodes)"

subsection \<open>\<open>__riscv_isa_extension_available\<close>\<close>

text \<open>A bitmap is an array of \<open>unsigned long\<close>.\<close>

type_synonym bitmap = "ulong list"

datatype fault = OutOfBounds

text \<open>
  Modelled from the spec: \<open>test_bit\<close> (linux/bitops.h) is not in src/. The spec treats a
  bitmap as a fixed-size bit set: bit \<open>nr\<close> is bit \<open>nr mod 64\<close> of word \<open>nr div 64\<close>, and
  an index that is not a position of the bitmap is a read outside its storage.
\<close>

definition test_bit :: "int \<Rightarrow> bitmap \<Rightarrow> fault + bool" where
  "test_bit nr addr =
     (if 0 \<le> nr \<and> nat nr div 64 < length addr
      then Inr (bit (addr ! (nat nr div 64)) (nat nr mod 64))
      else Inl OutOfBounds)"

text \<open>
  \<open>RISCV_ISA_EXT_MAX\<close> (asm/hwcap.h) is not in src/ and is a parameter, as is the host
  bitmap \<open>riscv_isa\<close>; \<open>isa_bitmap = None\<close> is the NULL pointer. \<open>bit\<close> is a C \<open>int\<close>.
\<close>

definition riscv_isa_extension_available ::
    "int \<Rightarrow> bitmap \<Rightarrow> bitmap option \<Rightarrow> int \<Rightarrow> fault + bool" where
  "riscv_isa_extension_available ext_max host_isa isa_bitmap bit_nr =
     (let bmap = (case isa_bitmap of Some b \<Rightarrow> b | None \<Rightarrow> host_isa)
      in if bit_nr \<ge> ext_max then Inr False
         else test_bit bit_nr bmap)"

subsection \<open>The run of one hart as a list of tokens\<close>

text \<open>
  The tokens the loop of \<open>parse_isa\<close> visits, in order: for each iteration the string at
  \<open>ext\<close> and the locals the \<open>switch\<close> computed. Same recursion as \<open>parse_isa\<close>.
\<close>

function ext_tokens :: "string \<Rightarrow> (string \<times> ext_token) list" where
  "ext_tokens s =
     (if peek s 0 = NUL then []
      else (s, scan_ext s) # ext_tokens (drop (next_isa s) s))"
  by pat_completeness auto
termination
  by (relation "measure length")
     (auto simp: peek_def next_isa_def Let_def split: if_splits)

declare ext_tokens.simps [simp del]

subsection \<open>Notions used to state the properties\<close>

text \<open>The lowercase letter of a bit index: \<open>'a' + i\<close>.\<close>

definition letter :: "nat \<Rightarrow> char" where
  "letter i = char_of (of_char (CHR ''a'') + i)"

text \<open>
  The capability bits a single-letter token with first character \<open>c\<close> stands for: bit
  \<open>n\<close> of the constant of one of the six lowercase legacy letters.
\<close>

definition legacy_cap :: "char \<Rightarrow> nat \<Rightarrow> bool" where
  "legacy_cap c n =
     (c = CHR ''i'' \<and> bit COMPAT_HWCAP_ISA_I n \<or> c = CHR ''m'' \<and> bit COMPAT_HWCAP_ISA_M n \<or>
      c = CHR ''a'' \<and> bit COMPAT_HWCAP_ISA_A n \<or> c = CHR ''f'' \<and> bit COMPAT_HWCAP_ISA_F n \<or>
      c = CHR ''d'' \<and> bit COMPAT_HWCAP_ISA_D n \<or> c = CHR ''c'' \<and> bit COMPAT_HWCAP_ISA_C n)"

text \<open>
  The descriptor strings of the contributing cpu nodes, in device-tree order: those for
  which a hart id was found and that have a \<open>riscv,isa\<close> property.
\<close>

fun contributing :: "cpu_node list \<Rightarrow> string list" where
  "contributing [] = []"
| "contributing (node # nodes) =
     (if hartid_ok node
      then (case riscv_isa_prop node of Some isa \<Rightarrow> [isa] | None \<Rightarrow> [])
      else []) @ contributing nodes"

text \<open>The per-hart capability masks and ISA words of the contributing nodes.\<close>

definition hart_caps :: "xlen_config \<Rightarrow> cpu_node list \<Rightarrow> ulong list" where
  "hart_caps cfg nodes = map (\<lambda>isa. this_hwcap (parse_hart cfg isa [])) (contributing nodes)"

definition hart_isas :: "xlen_config \<Rightarrow> cpu_node list \<Rightarrow> ulong list" where
  "hart_isas cfg nodes = map (\<lambda>isa. this_isa (parse_hart cfg isa [])) (contributing nodes)"


text \<open>
  One step of the running value: \<open>if (acc) acc &= this; else acc = this;\<close>, as
  \<open>hart_step\<close> does for \<open>elf_hwcap\<close> and for \<open>riscv_isa[0]\<close>.
\<close>

definition and_or_init :: "ulong \<Rightarrow> ulong \<Rightarrow> ulong" where
  "and_or_init acc this = (if acc \<noteq> 0 then acc AND this else this)"

subsection \<open>Single-letter tokens as written in a descriptor\<close>

text \<open>
  The grammar of a single-letter token: a lowercase letter other than \<open>s\<close>, \<open>x\<close>, \<open>z\<close>,
  then nothing, or a digit run (the major version), or a digit run, \<open>p\<close> and a digit run
  (major and minor version).
\<close>

datatype ext_version = Unversioned | Major string | Major_minor string string

type_synonym letter_token = "char \<times> ext_version"

definition digit_run :: "string \<Rightarrow> bool" where
  "digit_run ds = (ds \<noteq> [] \<and> list_all isdigit ds)"

fun version_text :: "ext_version \<Rightarrow> string" where
  "version_text Unversioned = []"
| "version_text (Major a) = a"
| "version_text (Major_minor a b) = a @ ''p'' @ b"

fun well_formed_version :: "ext_version \<Rightarrow> bool" where
  "well_formed_version Unversioned = True"
| "well_formed_version (Major a) = digit_run a"
| "well_formed_version (Major_minor a b) = (digit_run a \<and> digit_run b)"

definition token_text :: "letter_token \<Rightarrow> string" where
  "token_text t = fst t # version_text (snd t)"

definition single_letter_token :: "letter_token \<Rightarrow> bool" where
  "single_letter_token t =
     (islower (fst t) \<and> fst t \<noteq> CHR ''s'' \<and> fst t \<noteq> CHR ''x'' \<and> fst t \<noteq> CHR ''z'' \<and>
      well_formed_version (snd t))"

fun major_only :: "ext_version \<Rightarrow> bool" where
  "major_only (Major a) = True"
| "major_only v = False"

text \<open>
  What may follow a token in the string without being read as part of it: not a digit,
  and after a bare major version not \<open>p\<close> and a digit.
\<close>

definition may_follow :: "ext_version \<Rightarrow> string \<Rightarrow> bool" where
  "may_follow v rest =
     (\<not> isdigit (peek rest 0) \<and>
      \<not> (major_only v \<and> peek rest 0 = CHR ''p'' \<and> isdigit (peek rest 1)))"

text \<open>The same token sequence written without and with \<open>_\<close> between the tokens.\<close>

fun undelimited :: "letter_token list \<Rightarrow> string" where
  "undelimited [] = []"
| "undelimited (t # ts) = token_text t @ undelimited ts"

fun delimited :: "letter_token list \<Rightarrow> string" where
  "delimited [] = []"
| "delimited [t] = token_text t"
| "delimited (t # u # ts) = token_text t @ ''_'' @ delimited (u # ts)"

text \<open>
  No token with a bare major version is directly followed by a versioned token \<open>p\<close>:
  written without a delimiter the two would read as one token with a minor version.
\<close>

fun unambiguous :: "letter_token list \<Rightarrow> bool" where
  "unambiguous (t # u # ts) =
     (\<not> (major_only (snd t) \<and> fst u = CHR ''p'' \<and> snd u \<noteq> Unversioned) \<and>
      unambiguous (u # ts))"
| "unambiguous ts = True"

text \<open>What the loop body records for a single-letter token with letter \<open>c\<close>.\<close>

definition letter_effect :: "char \<Rightarrow> hart_state \<Rightarrow> hart_state" where
  "letter_effect c st =
     st\<lparr>this_hwcap := this_hwcap st OR isa2hwcap c,
        this_isa := this_isa st OR push_bit (of_char c - of_char (CHR ''a'')) 1,
        hart_log := hart_log st @ (if c = CHR ''h'' then [Feature_H] else [])\<rparr>"

text \<open>The rest of the string after a token and the \<open>_\<close> that may follow it.\<close>

definition after_delimiter :: "string \<Rightarrow> string" where
  "after_delimiter rest = (if peek rest 0 = CHR ''_'' then drop 1 rest else rest)"

section \<open>Properties\<close>

subsection \<open>Cursor bounds\<close>

lemma isdigit_not_NUL: "isdigit c \<Longrightarrow> c \<noteq> NUL"
  by (auto simp: isdigit_def NUL_def)

lemma peek_in_range: "peek s i \<noteq> NUL \<Longrightarrow> i < length s"
  by (auto simp: peek_def split: if_splits)

lemma isdigit_peek_in_range: "isdigit (peek s i) \<Longrightarrow> i < length s"
  using isdigit_not_NUL peek_in_range by blast

lemma long_run_bounds: "isa \<le> length s \<Longrightarrow> isa \<le> fst (long_run s isa err) \<and> fst (long_run s isa err) \<le> length s"
proof (induction s isa err rule: long_run.induct)
  case (1 s isa err)
  show ?case
  proof (cases "peek s isa \<noteq> NUL \<and> peek s isa \<noteq> CHR ''_''")
    case True
    then have "Suc isa \<le> length s" using peek_in_range by (simp add: Suc_le_eq)
    with 1 True show ?thesis
      by (subst (1 2) long_run.simps) auto
  next
    case False
    with 1 show ?thesis by (subst (1 2) long_run.simps) auto
  qed
qed

lemma skip_digits_bounds: "isa \<le> length s \<Longrightarrow> isa \<le> skip_digits s isa \<and> skip_digits s isa \<le> length s"
proof (induction s isa rule: skip_digits.induct)
  case (1 s isa)
  show ?case
  proof (cases "isdigit (peek s isa)")
    case True
    then have "Suc isa \<le> length s" using isdigit_peek_in_range by (simp add: Suc_le_eq)
    with 1 True show ?thesis
      by (subst (1 2) skip_digits.simps) auto
  next
    case False
    with 1 show ?thesis by (subst (1 2) skip_digits.simps) auto
  qed
qed

lemma isa_off_scan_long: "peek s 0 \<noteq> NUL \<Longrightarrow> 1 \<le> isa_off (scan_long s) \<and> isa_off (scan_long s) \<le> length s"
proof -
  assume "peek s 0 \<noteq> NUL"
  then have l: "1 \<le> length s" using peek_in_range[of s 0] by (cases s) auto
  obtain isa err where r: "long_run s (Suc 0) False = (isa, err)"
    by (cases "long_run s (Suc 0) False")
  with long_run_bounds[OF l, of False] have b: "1 \<le> isa \<and> isa \<le> length s" by simp
  have "isa_off (scan_long s) = isa"
    by (simp add: scan_long_def r Let_def split: sum.splits)
  with b show ?thesis by simp
qed

lemma isa_off_scan_short: "peek s 0 \<noteq> NUL \<Longrightarrow> 1 \<le> isa_off (scan_short s) \<and> isa_off (scan_short s) \<le> length s"
proof -
  assume "peek s 0 \<noteq> NUL"
  then have l: "1 \<le> length s" using peek_in_range[of s 0] by (cases s) auto
  show ?thesis
  proof (cases "islower (peek s 0) \<and> isdigit (peek s 1)")
    case False
    with l show ?thesis by (auto simp: scan_short_def Let_def)
  next
    case True
    then have l2: "2 \<le> length s" using isdigit_peek_in_range[of s 1] by simp
    let ?i = "skip_digits s 2"
    have b1: "2 \<le> ?i \<and> ?i \<le> length s" using skip_digits_bounds[OF l2] .
    show ?thesis
    proof (cases "peek s ?i = CHR ''p'' \<and> isdigit (peek s (?i + 1))")
      case False
      with True b1 show ?thesis by (auto simp: scan_short_def Let_def split: sum.splits)
    next
      case T2: True
      then have "?i + 2 \<le> length s" using isdigit_peek_in_range[of s "?i + 1"] by simp
      from skip_digits_bounds[OF this] b1 True T2 show ?thesis
        by (auto simp: scan_short_def Let_def split: sum.splits)
    qed
  qed
qed

lemma isa_off_bounds: "peek s 0 \<noteq> NUL \<Longrightarrow> 1 \<le> isa_off (scan_ext s) \<and> isa_off (scan_ext s) \<le> length s"
  using isa_off_scan_long isa_off_scan_short by (simp add: scan_ext_def)

lemma next_isa_bounds: "peek s 0 \<noteq> NUL \<Longrightarrow> 1 \<le> next_isa s \<and> next_isa s \<le> length s"
proof -
  assume a: "peek s 0 \<noteq> NUL"
  let ?i = "isa_off (scan_ext s)"
  from isa_off_bounds[OF a] have b: "1 \<le> ?i \<and> ?i \<le> length s" .
  show ?thesis
  proof (cases "peek s ?i = CHR ''_''")
    case True
    then have "?i < length s" using peek_in_range[of s ?i] by (simp add: NUL_def)
    with True show ?thesis by (simp add: next_isa_def Let_def)
  next
    case False
    with b show ?thesis by (simp add: next_isa_def Let_def)
  qed
qed

lemma drop_next_isa_shorter: "peek s 0 \<noteq> NUL \<Longrightarrow> length (drop (next_isa s) s) < length s"
  using next_isa_bounds[of s] by auto

lemma ext_tokens_length: "length (ext_tokens s) \<le> length s"
proof (induction s rule: ext_tokens.induct)
  case (1 s)
  show ?case
  proof (cases "peek s 0 = NUL")
    case True
    then show ?thesis by (subst ext_tokens.simps) simp
  next
    case False
    from drop_next_isa_shorter[OF False] 1[OF False] False show ?thesis
      by (subst ext_tokens.simps) simp
  qed
qed

subsection \<open>Version suffixes\<close>

text \<open>
  C4. Version suffix of a namespaced token: \<open>zba1p0\<close> has major version 1 and minor
  version 0; \<open>zba1\<close> has major version 1 and the default minor version 0; \<open>zba\<close>
  keeps the unversioned default \<open>UINT_MAX\<close> as its major version. In all three the name
  span is \<open>zba\<close> and no error flag is set.
\<close>

theorem version_suffix_parsing:
  "ext_major (scan_ext ''zba1p0'') = 1 \<and> ext_minor (scan_ext ''zba1p0'') = 0 \<and>
   \<not> ext_err (scan_ext ''zba1p0'') \<and> \<not> ext_err_ver (scan_ext ''zba1p0'') \<and>
   take (ext_end (scan_ext ''zba1p0'')) ''zba1p0'' = ''zba'' \<and>
   ext_major (scan_ext ''zba1'') = 1 \<and> ext_minor (scan_ext ''zba1'') = 0 \<and>
   \<not> ext_err (scan_ext ''zba1'') \<and> \<not> ext_err_ver (scan_ext ''zba1'') \<and>
   take (ext_end (scan_ext ''zba1'')) ''zba1'' = ''zba'' \<and>
   ext_major (scan_ext ''zba'') = UINT_MAX \<and> ext_minor (scan_ext ''zba'') = 0 \<and>
   \<not> ext_err (scan_ext ''zba'') \<and> \<not> ext_err_ver (scan_ext ''zba'') \<and>
   take (ext_end (scan_ext ''zba'')) ''zba'' = ''zba''"
  by code_simp

subsection \<open>Termination of the token loop\<close>

text \<open>
  C10. The token loop terminates on every descriptor string. When an iteration is entered
  (the cursor is not on the NUL), the cursor left by the \<open>switch\<close> is at least one
  character after the token's start and not past the NUL, so the \<open>--isa\<close> at the end of
  the body never moves it before the token's first character; the next iteration starts
  at least one character further and not past the NUL, on a strictly shorter rest. The
  loop therefore runs at most as many iterations as the string has characters.
\<close>

theorem token_loop_advances:
  "(peek s 0 \<noteq> NUL \<longrightarrow>
      1 \<le> isa_off (scan_ext s) \<and> isa_off (scan_ext s) \<le> length s \<and>
      1 \<le> next_isa s \<and> next_isa s \<le> length s \<and>
      length (drop (next_isa s) s) < length s) \<and>
   length (ext_tokens s) \<le> length s"
  using isa_off_bounds next_isa_bounds drop_next_isa_shorter ext_tokens_length by blast

theorem token_loop_advances_witness:
  "peek ''zba1p0_i2p0m'' 0 \<noteq> NUL \<and>
   next_isa ''zba1p0_i2p0m'' = 7 \<and>
   1 \<le> next_isa ''zba1p0_i2p0m'' \<and>
   next_isa ''zba1p0_i2p0m'' \<le> length ''zba1p0_i2p0m'' \<and>
   length (ext_tokens ''zba1p0_i2p0m'') \<le> length ''zba1p0_i2p0m''"
proof -
  have a: "peek ''zba1p0_i2p0m'' 0 \<noteq> NUL" by code_simp
  have b: "next_isa ''zba1p0_i2p0m'' = 7" by code_simp
  from a b token_loop_advances[of "''zba1p0_i2p0m''"] show ?thesis by simp
qed

subsection \<open>The presenter\<close>

lemma NUM_ALPHA_EXTS_26: "NUM_ALPHA_EXTS = 26"
  by (simp add: NUM_ALPHA_EXTS_def)

lemma BIT_MASK_test: "i < 64 \<Longrightarrow> (w AND BIT_MASK i \<noteq> 0) = bit w i"
  by (simp add: BIT_MASK_def and_exp_eq_0_iff_not_bit)

text \<open>
  The loop invariant: the buffer keeps its first \<open>j\<close> bytes, the letters of the set bits
  from \<open>i\<close> on are written after them, and the bytes behind stay as they were.
\<close>

lemma print_loop_inv:
  "i \<le> 26 \<Longrightarrow> j + (26 - i) < length buf \<Longrightarrow>
   print_loop w i j buf =
     take j buf @ map letter (filter (bit w) [i..<26]) @
     drop (j + length (filter (bit w) [i..<26])) buf"
proof (induction w i j buf rule: print_loop.induct)
  case (1 w i j buf)
  show ?case
  proof (cases "i < 26")
    case False
    with 1(3) have "i = 26" by simp
    then show ?thesis by (subst print_loop.simps) (simp add: NUM_ALPHA_EXTS_26)
  next
    case True
    then have up: "[i..<26] = i # [Suc i..<26]" by (simp add: upt_conv_Cons)
    from True have i64: "i < 64" by simp
    show ?thesis
    proof (cases "bit w i")
      case b: True
      have jl: "j < length buf" using 1(4) True by simp
      have "print_loop w i j buf = print_loop w (Suc i) (Suc j) (buf[j := letter i])"
        using True b
        by (subst print_loop.simps)
           (simp add: NUM_ALPHA_EXTS_26 BIT_MASK_test[OF i64] letter_def)
      also have "\<dots> = take (Suc j) (buf[j := letter i]) @
           map letter (filter (bit w) [Suc i..<26]) @
           drop (Suc j + length (filter (bit w) [Suc i..<26])) (buf[j := letter i])"
        using 1(1) True b 1(4)
        by (simp add: NUM_ALPHA_EXTS_26 BIT_MASK_test[OF i64] letter_def)
      also have "take (Suc j) (buf[j := letter i]) = take j buf @ [letter i]"
        using jl by (simp add: take_Suc_conv_app_nth)
      also have "drop (Suc j + length (filter (bit w) [Suc i..<26])) (buf[j := letter i]) =
                 drop (Suc j + length (filter (bit w) [Suc i..<26])) buf"
        by simp
      finally show ?thesis using b by (simp add: up)
    next
      case b: False
      have "print_loop w i j buf = print_loop w (Suc i) j buf"
        using True b
        by (subst print_loop.simps) (simp add: NUM_ALPHA_EXTS_26 BIT_MASK_test[OF i64])
      also have "\<dots> = take j buf @ map letter (filter (bit w) [Suc i..<26]) @
           drop (j + length (filter (bit w) [Suc i..<26])) buf"
        using 1(2) True b 1(4) by (simp add: NUM_ALPHA_EXTS_26 BIT_MASK_test[OF i64])
      finally show ?thesis using b by (simp add: up)
    qed
  qed
qed

lemma letter_not_NUL: "i < 26 \<Longrightarrow> letter i \<noteq> NUL"
proof
  assume a: "i < 26" and "letter i = NUL"
  then have "(of_char (letter i) :: nat) = of_char NUL" by simp
  with a show False by (simp add: letter_def NUL_def)
qed

lemma of_char_letter: "i < 26 \<Longrightarrow> (of_char (letter i) :: nat) = 97 + i"
  by (simp add: letter_def)

lemma print_letters_eq: "print_letters w = map letter (filter (bit w) [0..<26])"
proof -
  let ?L = "filter (bit w) [0..<26]"
  have len: "length ?L \<le> 26" using length_filter_le[of "bit w" "[0..<26]"] by simp
  have "print_loop w 0 0 (replicate 27 NUL) =
        map letter ?L @ drop (length ?L) (replicate 27 NUL)"
    using print_loop_inv[of 0 0 "replicate 27 NUL" w] by simp
  also have "drop (length ?L) (replicate 27 NUL) = NUL # replicate (26 - length ?L) NUL"
    using len by (simp add: Suc_diff_le flip: replicate_Suc)
  finally have "print_letters w =
      takeWhile (\<lambda>c. c \<noteq> NUL) (map letter ?L @ NUL # replicate (26 - length ?L) NUL)"
    by (simp add: print_letters_def c_string_def NUM_ALPHA_EXTS_26)
  also have "\<dots> = map letter ?L"
    by (subst takeWhile_append2) (auto simp: letter_not_NUL)
  finally show ?thesis .
qed

lemma print_letters_ascending: "sorted_wrt (<) (map of_char (print_letters w) :: nat list)"
proof -
  have "map of_char (print_letters w) = map (\<lambda>i. 97 + i) (filter (bit w) [0..<26])"
    by (simp add: print_letters_eq of_char_letter)
  moreover have "sorted_wrt (<) (filter (bit w) [0..<26])"
    by (rule sorted_wrt_filter) simp
  ultimately show ?thesis by (simp add: sorted_wrt_map)
qed

lemma print_letters_lower: "list_all islower (print_letters w)"
  by (simp add: print_letters_eq list_all_iff islower_def of_char_letter)

text \<open>
  C9. The presenter renders a word as the letters \<open>'a' + i\<close> of the bit indices
  \<open>i < 26\<close> that are set, in ascending index order and nothing else: the character
  codes of the result are strictly increasing and every character is a lowercase letter.
  For the descriptor \<open>rv64imac\<close> on a 64-bit kernel the hart's ISA word has exactly the
  bits of a, c, i and m (indices 0, 2, 8, 12), its capability mask is I, M, A and C with
  neither F nor D, the presenter renders \<open>acim\<close>, and so do both boot lines when this is
  the only hart.
\<close>

theorem presenter_renders_set_letters:
  "print_letters w = map letter (filter (bit w) [0..<26]) \<and>
   sorted_wrt (<) (map of_char (print_letters w) :: nat list) \<and>
   list_all islower (print_letters w) \<and>
   this_isa (parse_hart CONFIG_64BIT ''rv64imac'' []) =
     BIT_MASK 0 OR BIT_MASK 2 OR BIT_MASK 8 OR BIT_MASK 12 \<and>
   this_hwcap (parse_hart CONFIG_64BIT ''rv64imac'' []) =
     COMPAT_HWCAP_ISA_I OR COMPAT_HWCAP_ISA_M OR COMPAT_HWCAP_ISA_A OR COMPAT_HWCAP_ISA_C \<and>
   this_hwcap (parse_hart CONFIG_64BIT ''rv64imac'' []) AND
     (COMPAT_HWCAP_ISA_F OR COMPAT_HWCAP_ISA_D) = 0 \<and>
   print_letters (this_isa (parse_hart CONFIG_64BIT ''rv64imac'' [])) = ''acim'' \<and>
   kernel_log (riscv_fill_hwcap CONFIG_64BIT
       [\<lparr>hartid_ok = True, riscv_isa_prop = Some ''rv64imac''\<rparr>]) =
     [Info_ISA_extensions ''acim'', Info_ELF_capabilities ''acim'']"
proof -
  have a: "this_isa (parse_hart CONFIG_64BIT ''rv64imac'' []) =
     BIT_MASK 0 OR BIT_MASK 2 OR BIT_MASK 8 OR BIT_MASK 12"
    by code_simp
  have b: "this_hwcap (parse_hart CONFIG_64BIT ''rv64imac'' []) =
     COMPAT_HWCAP_ISA_I OR COMPAT_HWCAP_ISA_M OR COMPAT_HWCAP_ISA_A OR COMPAT_HWCAP_ISA_C"
    by code_simp
  have c: "this_hwcap (parse_hart CONFIG_64BIT ''rv64imac'' []) AND
     (COMPAT_HWCAP_ISA_F OR COMPAT_HWCAP_ISA_D) = 0"
    by code_simp
  have d: "print_letters (this_isa (parse_hart CONFIG_64BIT ''rv64imac'' [])) = ''acim''"
    by code_simp
  have e: "kernel_log (riscv_fill_hwcap CONFIG_64BIT
       [\<lparr>hartid_ok = True, riscv_isa_prop = Some ''rv64imac''\<rparr>]) =
     [Info_ISA_extensions ''acim'', Info_ELF_capabilities ''acim'']"
    by code_simp
  from a b c d e print_letters_eq[of w] print_letters_ascending[of w] print_letters_lower[of w]
  show ?thesis by blast
qed

subsection \<open>The availability query\<close>

lemma extension_available_high:
  "ext_max \<le> bit_nr \<Longrightarrow>
   riscv_isa_extension_available ext_max host_isa isa_bitmap bit_nr = Inr False"
  by (simp add: riscv_isa_extension_available_def)

lemma extension_available_in_range:
  "0 \<le> bit_nr \<Longrightarrow> bit_nr < ext_max \<Longrightarrow> ext_max \<le> 64 * int (length bmap) \<Longrightarrow>
   bmap = (case isa_bitmap of Some b \<Rightarrow> b | None \<Rightarrow> host_isa) \<Longrightarrow>
   riscv_isa_extension_available ext_max host_isa isa_bitmap bit_nr =
     Inr (bit (bmap ! (nat bit_nr div 64)) (nat bit_nr mod 64))"
  by (auto simp: riscv_isa_extension_available_def test_bit_def Let_def)

text \<open>
  C7, at a negative index. With \<open>RISCV_ISA_EXT_MAX = 64\<close> and a one-word host bitmap,
  the index \<open>-1\<close> passes the only guard (\<open>bit >= RISCV_ISA_EXT_MAX\<close>) and reaches
  \<open>test_bit\<close>, which reads outside the positions of the bitmap: the query does not
  return false. The same holds with a caller's bitmap.
\<close>

theorem extension_available_negative_bit:
  "riscv_isa_extension_available 64 [0x8000000000000000] None (- 1) = Inl OutOfBounds \<and>
   riscv_isa_extension_available 64 [0] (Some [0x8000000000000000]) (- 1) = Inl OutOfBounds \<and>
   riscv_isa_extension_available 64 [0x8000000000000000] None (- 1) \<noteq> Inr False"
  by (simp add: riscv_isa_extension_available_def test_bit_def)

subsection \<open>The token loop as a fold over its tokens\<close>

lemma parse_isa_fold:
  "parse_isa s st = foldl (\<lambda>st (s', t). record_ext s' t st) st (ext_tokens s)"
proof (induction s st rule: parse_isa.induct)
  case (1 s st)
  show ?case
  proof (cases "peek s 0 = NUL")
    case True
    then show ?thesis by (subst parse_isa.simps, subst ext_tokens.simps) simp
  next
    case False
    with 1 show ?thesis by (subst parse_isa.simps, subst ext_tokens.simps) simp
  qed
qed

lemma ext_tokens_scan:
  "(s', t) \<in> set (ext_tokens s) \<Longrightarrow> t = scan_ext s' \<and> peek s' 0 \<noteq> NUL"
proof (induction s rule: ext_tokens.induct)
  case (1 s)
  show ?case
  proof (cases "peek s 0 = NUL")
    case True
    with 1(2) show ?thesis by (subst (asm) ext_tokens.simps) simp
  next
    case False
    from 1(2) have "(s', t) = (s, scan_ext s) \<or> (s', t) \<in> set (ext_tokens (drop (next_isa s) s))"
      using False by (subst (asm) ext_tokens.simps) simp
    with 1(1)[OF False] False show ?thesis by auto
  qed
qed

lemma long_run_err_mono: "err \<Longrightarrow> snd (long_run s isa err)"
proof (induction s isa err rule: long_run.induct)
  case (1 s isa err)
  then show ?case by (subst long_run.simps) auto
qed

lemma scan_long_flags: "ext_long (scan_long s)"
  by (simp add: scan_long_def Let_def split: prod.splits sum.splits)

lemma scan_short_flags:
  "\<not> ext_long (scan_short s) \<and> ext_end (scan_short s) = 1 \<and>
   ext_err (scan_short s) = (\<not> islower (peek s 0))"
  by (simp add: scan_short_def Let_def split: sum.splits)

lemma islower_sxz: "c = CHR ''s'' \<or> c = CHR ''x'' \<or> c = CHR ''z'' \<Longrightarrow> islower c"
  by (auto simp: islower_def)

lemma not_ext_err_islower: "\<not> ext_err (scan_ext s) \<Longrightarrow> islower (peek s 0)"
  by (auto simp: scan_ext_def scan_short_flags islower_sxz split: if_splits)

lemma record_ext_hwcap:
  "this_hwcap (record_ext s t st) =
     (if ext_err t then this_hwcap st else this_hwcap st OR isa2hwcap (peek s 0))"
  by (simp add: record_ext_def)

lemma record_ext_isa:
  "this_isa (record_ext s t st) =
     (if ext_err t \<or> ext_long t then this_isa st
      else this_isa st OR push_bit (of_char (peek s 0) - of_char (CHR ''a'')) 1)"
  by (simp add: record_ext_def)

lemma record_ext_log:
  "hart_log (record_ext s t st) =
     hart_log st @ (if ext_err t then [] else feature_tests s t)"
  by (simp add: record_ext_def)

lemma bit_hwcap_fold:
  "bit (this_hwcap (foldl (\<lambda>st (s', t). record_ext s' t st) st toks)) n \<longleftrightarrow>
   bit (this_hwcap st) n \<or> (\<exists>(s', t) \<in> set toks. \<not> ext_err t \<and> bit (isa2hwcap (peek s' 0)) n)"
proof (induction toks arbitrary: st)
  case Nil
  then show ?case by simp
next
  case (Cons a toks)
  obtain s' t where a: "a = (s', t)" by (cases a)
  show ?case
    by (auto simp: Cons a record_ext_hwcap bit_or_iff)
qed

lemma log_fold:
  "hart_log (foldl (\<lambda>st (s', t). record_ext s' t st) st toks) =
   hart_log st @ concat (map (\<lambda>(s', t). if ext_err t then [] else feature_tests s' t) toks)"
proof (induction toks arbitrary: st)
  case Nil
  then show ?case by simp
next
  case (Cons a toks)
  obtain s' t where a: "a = (s', t)" by (cases a)
  show ?case by (simp add: Cons a record_ext_log)
qed

lemma count_list_concat_map:
  "count_list (concat (map f xs)) y = sum_list (map (\<lambda>x. count_list (f x) y) xs)"
  by (induction xs) (simp_all)

subsection \<open>The legacy letters\<close>

lemma upper_not_lower:
  "c = CHR ''I'' \<or> c = CHR ''M'' \<or> c = CHR ''A'' \<or> c = CHR ''F'' \<or> c = CHR ''D'' \<or> c = CHR ''C''
   \<Longrightarrow> \<not> islower c"
  by (elim disjE; simp add: islower_def)

lemma legacy_lower_scan:
  "c = CHR ''i'' \<or> c = CHR ''m'' \<or> c = CHR ''a'' \<or> c = CHR ''f'' \<or> c = CHR ''d'' \<or> c = CHR ''c''
   \<Longrightarrow> peek s 0 = c
   \<Longrightarrow> \<not> ext_err (scan_ext s) \<and> \<not> ext_long (scan_ext s) \<and> ext_end (scan_ext s) = 1"
  by (elim disjE; simp add: scan_ext_def scan_short_flags islower_def)

lemma upper_scan:
  "c = CHR ''I'' \<or> c = CHR ''M'' \<or> c = CHR ''A'' \<or> c = CHR ''F'' \<or> c = CHR ''D'' \<or> c = CHR ''C''
   \<Longrightarrow> peek s 0 = c \<Longrightarrow> ext_err (scan_ext s)"
  by (elim disjE; simp add: scan_ext_def scan_short_flags islower_def)

lemma isa2hwcap_lower: "islower c \<Longrightarrow> bit (isa2hwcap c) n = legacy_cap c n"
proof -
  assume l: "islower c"
  have u: "c \<noteq> CHR ''I''" "c \<noteq> CHR ''M''" "c \<noteq> CHR ''A''" "c \<noteq> CHR ''F''"
          "c \<noteq> CHR ''D''" "c \<noteq> CHR ''C''"
    using l upper_not_lower[of c] by blast+
  show ?thesis by (simp add: isa2hwcap_def legacy_cap_def u)
qed

lemma legacy_cap_letters:
  "legacy_cap c n \<Longrightarrow>
   c = CHR ''i'' \<or> c = CHR ''m'' \<or> c = CHR ''a'' \<or> c = CHR ''f'' \<or> c = CHR ''d'' \<or> c = CHR ''c''"
  unfolding legacy_cap_def by blast

lemma token_cap_bit:
  "(\<not> ext_err (scan_ext s) \<and> bit (isa2hwcap (peek s 0)) n) =
   (\<not> ext_err (scan_ext s) \<and> \<not> ext_long (scan_ext s) \<and> ext_end (scan_ext s) = 1 \<and>
    legacy_cap (peek s 0) n)"
proof (cases "ext_err (scan_ext s)")
  case True
  then show ?thesis by simp
next
  case False
  then have l: "islower (peek s 0)" by (rule not_ext_err_islower)
  have "legacy_cap (peek s 0) n \<Longrightarrow> \<not> ext_long (scan_ext s) \<and> ext_end (scan_ext s) = 1"
    using legacy_lower_scan[OF legacy_cap_letters, of "peek s 0" n s] by simp
  then show ?thesis
    using False by (simp only: isa2hwcap_lower[OF l]) blast
qed

text \<open>
  C3, as the code has it. A bit of a hart's capability mask is set exactly when the run
  has a single-letter token (not rejected, not namespaced, name span of length one) whose
  letter is one of the lowercase \<open>i\<close>, \<open>m\<close>, \<open>a\<close>, \<open>f\<close>, \<open>d\<close>, \<open>c\<close> and the
  bit is that letter's capability bit: no other identifier sets a bit. Every token
  starting with one of the six lowercase letters is such a token. A token starting with an
  uppercase \<open>I\<close>, \<open>M\<close>, \<open>A\<close>, \<open>F\<close>, \<open>D\<close> or \<open>C\<close> is rejected (\<open>ext_err\<close>) before
  the table \<open>isa2hwcap\<close> is read, so it sets nothing.
\<close>

theorem legacy_letters_lowercase_only:
  "(bit (this_hwcap (parse_hart cfg isa lg)) n \<longleftrightarrow>
      (\<exists>(s, t) \<in> set (ext_tokens (strip_prefix cfg isa)).
          \<not> ext_err t \<and> \<not> ext_long t \<and> ext_end t = 1 \<and> legacy_cap (peek s 0) n)) \<and>
   (\<forall>(s, t) \<in> set (ext_tokens (strip_prefix cfg isa)).
      (peek s 0 \<in> {CHR ''i'', CHR ''m'', CHR ''a'', CHR ''f'', CHR ''d'', CHR ''c''} \<longrightarrow>
         \<not> ext_err t \<and> \<not> ext_long t \<and> ext_end t = 1) \<and>
      (peek s 0 \<in> {CHR ''I'', CHR ''M'', CHR ''A'', CHR ''F'', CHR ''D'', CHR ''C''} \<longrightarrow>
         ext_err t))"
proof -
  let ?toks = "ext_tokens (strip_prefix cfg isa)"
  have "bit (this_hwcap (parse_hart cfg isa lg)) n \<longleftrightarrow>
        (\<exists>(s, t) \<in> set ?toks. \<not> ext_err t \<and> bit (isa2hwcap (peek s 0)) n)"
    by (simp add: parse_hart_def parse_isa_fold bit_hwcap_fold)
  also have "\<dots> \<longleftrightarrow> (\<exists>(s, t) \<in> set ?toks.
          \<not> ext_err t \<and> \<not> ext_long t \<and> ext_end t = 1 \<and> legacy_cap (peek s 0) n)"
    using token_cap_bit by (fastforce dest: ext_tokens_scan)
  finally have a: "bit (this_hwcap (parse_hart cfg isa lg)) n \<longleftrightarrow>
      (\<exists>(s, t) \<in> set ?toks.
          \<not> ext_err t \<and> \<not> ext_long t \<and> ext_end t = 1 \<and> legacy_cap (peek s 0) n)" .
  have b: "\<forall>(s, t) \<in> set ?toks.
      (peek s 0 \<in> {CHR ''i'', CHR ''m'', CHR ''a'', CHR ''f'', CHR ''d'', CHR ''c''} \<longrightarrow>
         \<not> ext_err t \<and> \<not> ext_long t \<and> ext_end t = 1) \<and>
      (peek s 0 \<in> {CHR ''I'', CHR ''M'', CHR ''A'', CHR ''F'', CHR ''D'', CHR ''C''} \<longrightarrow>
         ext_err t)"
  proof (intro ballI)
    fix x assume m: "x \<in> set ?toks"
    obtain s t where x: "x = (s, t)" by (cases x)
    with m have t: "t = scan_ext s" using ext_tokens_scan by blast
    have "(peek s 0 \<in> {CHR ''i'', CHR ''m'', CHR ''a'', CHR ''f'', CHR ''d'', CHR ''c''} \<longrightarrow>
         \<not> ext_err t \<and> \<not> ext_long t \<and> ext_end t = 1) \<and>
      (peek s 0 \<in> {CHR ''I'', CHR ''M'', CHR ''A'', CHR ''F'', CHR ''D'', CHR ''C''} \<longrightarrow>
         ext_err t)"
      using legacy_lower_scan[of "peek s 0" s] upper_scan[of "peek s 0" s] t by blast
    then show "case x of (s, t) \<Rightarrow>
      (peek s 0 \<in> {CHR ''i'', CHR ''m'', CHR ''a'', CHR ''f'', CHR ''d'', CHR ''c''} \<longrightarrow>
         \<not> ext_err t \<and> \<not> ext_long t \<and> ext_end t = 1) \<and>
      (peek s 0 \<in> {CHR ''I'', CHR ''M'', CHR ''A'', CHR ''F'', CHR ''D'', CHR ''C''} \<longrightarrow>
         ext_err t)" by (simp add: x)
  qed
  from a b show ?thesis by blast
qed

theorem legacy_letters_lowercase_only_witness:
  "(''iM'', scan_ext ''iM'') \<in> set (ext_tokens (strip_prefix CONFIG_64BIT ''rv64iM'')) \<and>
   \<not> ext_err (scan_ext ''iM'') \<and> \<not> ext_long (scan_ext ''iM'') \<and>
   ext_end (scan_ext ''iM'') = 1 \<and> legacy_cap (peek ''iM'' 0) 8 \<and>
   bit (this_hwcap (parse_hart CONFIG_64BIT ''rv64iM'' [])) 8 \<and>
   (''M'', scan_ext ''M'') \<in> set (ext_tokens (strip_prefix CONFIG_64BIT ''rv64iM'')) \<and>
   ext_err (scan_ext ''M'')"
proof -
  have m1: "(''iM'', scan_ext ''iM'') \<in> set (ext_tokens (strip_prefix CONFIG_64BIT ''rv64iM''))"
    by code_simp
  have m2: "(''M'', scan_ext ''M'') \<in> set (ext_tokens (strip_prefix CONFIG_64BIT ''rv64iM''))"
    by code_simp
  have p1: "peek ''iM'' 0 = CHR ''i''" and p2: "peek ''M'' 0 = CHR ''M''"
    by (simp_all add: peek_def)
  have c: "legacy_cap (peek ''iM'' 0) 8"
    by (simp add: p1 legacy_cap_def COMPAT_HWCAP_ISA_I_def bit_simps)
  note th = legacy_letters_lowercase_only[of CONFIG_64BIT "''rv64iM''" "[]" 8]
  from th have B: "\<forall>(s, t) \<in> set (ext_tokens (strip_prefix CONFIG_64BIT ''rv64iM'')).
      (peek s 0 \<in> {CHR ''i'', CHR ''m'', CHR ''a'', CHR ''f'', CHR ''d'', CHR ''c''} \<longrightarrow>
         \<not> ext_err t \<and> \<not> ext_long t \<and> ext_end t = 1) \<and>
      (peek s 0 \<in> {CHR ''I'', CHR ''M'', CHR ''A'', CHR ''F'', CHR ''D'', CHR ''C''} \<longrightarrow>
         ext_err t)" by (rule conjunct2)
  from bspec[OF B m1] have f: "\<not> ext_err (scan_ext ''iM'') \<and> \<not> ext_long (scan_ext ''iM'') \<and>
      ext_end (scan_ext ''iM'') = 1" by (simp add: p1)
  from bspec[OF B m2] have e: "ext_err (scan_ext ''M'')" by (simp add: p2)
  have "\<exists>(s, t) \<in> set (ext_tokens (strip_prefix CONFIG_64BIT ''rv64iM'')).
          \<not> ext_err t \<and> \<not> ext_long t \<and> ext_end t = 1 \<and> legacy_cap (peek s 0) 8"
    using m1 f c by (intro bexI[of _ "(''iM'', scan_ext ''iM'')"]) simp_all
  with th have "bit (this_hwcap (parse_hart CONFIG_64BIT ''rv64iM'' [])) 8" by (simp only:)
  with m1 m2 f c e show ?thesis by (simp only: simp_thms)
qed

text \<open>
  C3 as stated fails for uppercase letters: the descriptor \<open>rv64I\<close> sets no capability
  bit, although the table maps \<open>I\<close> to the same bit as \<open>i\<close>.
\<close>

theorem uppercase_letter_sets_no_bit:
  "this_hwcap (parse_hart CONFIG_64BIT ''rv64I'' []) = 0 \<and>
   this_hwcap (parse_hart CONFIG_64BIT ''rv64i'' []) = COMPAT_HWCAP_ISA_I \<and>
   isa2hwcap (CHR ''I'') = COMPAT_HWCAP_ISA_I \<and> COMPAT_HWCAP_ISA_I \<noteq> 0"
  by code_simp

subsection \<open>Watch-list diagnostics\<close>

lemma log_parse_hart:
  "hart_log (parse_hart cfg isa lg) =
   lg @ concat (map (\<lambda>(s, t). if ext_err t then [] else feature_tests s t)
                  (ext_tokens (strip_prefix cfg isa)))"
  by (simp add: parse_hart_def parse_isa_fold log_fold)

lemma count_feature_tests:
  "count_list (feature_tests s t) Feature_H = (if MATCH_EXT s t ''h'' then 1 else 0)"
  "count_list (feature_tests s t) Feature_Zba = (if MATCH_EXT s t ''zba'' then 1 else 0)"
  "count_list (feature_tests s t) Feature_ZiHintPause =
     (if MATCH_EXT s t ''zihintpause'' then 1 else 0)"
  "count_list (feature_tests s t) Feature_Zksed = (if MATCH_EXT s t ''zksed'' then 1 else 0)"
  by (simp_all add: feature_tests_def)

lemma count_concat_filter:
  "(\<And>x. count_list (f x) y = (if P x then 1 else 0)) \<Longrightarrow>
   count_list (concat (map f xs)) y = length (filter P xs)"
  by (induction xs) simp_all

lemma count_features:
  "count_list (concat (map (\<lambda>(s, t). if ext_err t then [] else feature_tests s t) toks)) Feature_H =
     length (filter (\<lambda>(s, t). \<not> ext_err t \<and> MATCH_EXT s t ''h'') toks)"
  "count_list (concat (map (\<lambda>(s, t). if ext_err t then [] else feature_tests s t) toks)) Feature_Zba =
     length (filter (\<lambda>(s, t). \<not> ext_err t \<and> MATCH_EXT s t ''zba'') toks)"
  "count_list (concat (map (\<lambda>(s, t). if ext_err t then [] else feature_tests s t) toks))
      Feature_ZiHintPause =
     length (filter (\<lambda>(s, t). \<not> ext_err t \<and> MATCH_EXT s t ''zihintpause'') toks)"
  "count_list (concat (map (\<lambda>(s, t). if ext_err t then [] else feature_tests s t) toks)) Feature_Zksed =
     length (filter (\<lambda>(s, t). \<not> ext_err t \<and> MATCH_EXT s t ''zksed'') toks)"
  by (rule count_concat_filter; simp add: count_feature_tests split: prod.splits)+

lemma peek_0_take_1: "peek s 0 = c \<Longrightarrow> c \<noteq> NUL \<Longrightarrow> take 1 s = [c]"
  by (cases s) (auto simp: peek_def)

lemma h_token:
  "peek s 0 = CHR ''h'' \<Longrightarrow>
   \<not> ext_err (scan_ext s) \<and> feature_tests s (scan_ext s) = [Feature_H]"
proof -
  assume p: "peek s 0 = CHR ''h''"
  then have f: "\<not> ext_err (scan_ext s) \<and> ext_end (scan_ext s) = 1"
    by (simp add: scan_ext_def scan_short_flags islower_def)
  have t: "take 1 s = ''h''" using peek_0_take_1[OF p] by (simp add: NUL_def)
  have t': "take (Suc 0) s = ''h''" using t by simp
  show ?thesis using f by (simp add: feature_tests_def MATCH_EXT_def t')
qed

lemma zba_token:
  "take 3 s = ''zba'' \<Longrightarrow> peek s 3 = NUL \<or> peek s 3 = CHR ''_'' \<Longrightarrow>
   \<not> ext_err (scan_ext s) \<and> feature_tests s (scan_ext s) = [Feature_Zba]"
proof -
  assume t: "take 3 s = ''zba''" and e: "peek s 3 = NUL \<or> peek s 3 = CHR ''_''"
  from t have s: "s = ''zba'' @ drop 3 s" by (metis append_take_drop_id)
  have p: "peek s 0 = CHR ''z''" "peek s (Suc 0) = CHR ''b''" "peek s (Suc (Suc 0)) = CHR ''a''"
    by (subst s, simp add: peek_def)+
  have e': "peek s (Suc (Suc (Suc 0))) = NUL \<or> peek s (Suc (Suc (Suc 0))) = CHR ''_''"
    using e by (simp add: numeral_3_eq_3)
  have l3: "long_run s (Suc (Suc (Suc 0))) False = (3, False)"
    using e' by (subst long_run.simps) auto
  have l2: "long_run s (Suc (Suc 0)) False = (3, False)"
    by (subst long_run.simps) (simp add: p NUL_def islower_def l3)
  have l1: "long_run s (Suc 0) False = (3, False)"
    by (subst long_run.simps) (simp add: p NUL_def islower_def l2)
  have nd: "\<not> isdigit (CHR ''a'')" by (simp add: isdigit_def)
  have sc: "scan_ext s = \<lparr>isa_off = 3, ext_end = 3, ext_major = UINT_MAX, ext_minor = 0,
                ext_long = True, ext_err = False, ext_err_ver = False\<rparr>"
    using p(3) by (simp add: scan_ext_def p(1) scan_long_def l1 nd numeral_2_eq_2)
  have t': "take (Suc (Suc (Suc 0))) s = ''zba''" using t by (simp add: numeral_3_eq_3)
  show ?thesis by (simp add: sc feature_tests_def MATCH_EXT_def t')
qed

text \<open>
  C6, as the code has it. The lines a hart's run writes are, token by token in order, the
  watch-list lines of every token that is not rejected: no record is kept of the names
  already seen. So the number of lines for a watch-listed name is the number of tokens of
  the run, not rejected, whose name span equals that name. Single-letter and namespaced
  names are both eligible: every token starting with \<open>h\<close> writes the H line, and a
  token \<open>zba\<close> followed by the end of the string or a delimiter writes the Zba line.
\<close>

theorem feature_test_every_occurrence:
  "hart_log (parse_hart cfg isa lg) =
     lg @ concat (map (\<lambda>(s, t). if ext_err t then [] else feature_tests s t)
                    (ext_tokens (strip_prefix cfg isa))) \<and>
   count_list (hart_log (parse_hart cfg isa lg)) Feature_H =
     count_list lg Feature_H +
     length (filter (\<lambda>(s, t). \<not> ext_err t \<and> MATCH_EXT s t ''h'')
               (ext_tokens (strip_prefix cfg isa))) \<and>
   count_list (hart_log (parse_hart cfg isa lg)) Feature_Zba =
     count_list lg Feature_Zba +
     length (filter (\<lambda>(s, t). \<not> ext_err t \<and> MATCH_EXT s t ''zba'')
               (ext_tokens (strip_prefix cfg isa))) \<and>
   count_list (hart_log (parse_hart cfg isa lg)) Feature_ZiHintPause =
     count_list lg Feature_ZiHintPause +
     length (filter (\<lambda>(s, t). \<not> ext_err t \<and> MATCH_EXT s t ''zihintpause'')
               (ext_tokens (strip_prefix cfg isa))) \<and>
   count_list (hart_log (parse_hart cfg isa lg)) Feature_Zksed =
     count_list lg Feature_Zksed +
     length (filter (\<lambda>(s, t). \<not> ext_err t \<and> MATCH_EXT s t ''zksed'')
               (ext_tokens (strip_prefix cfg isa))) \<and>
   (peek s 0 = CHR ''h'' \<longrightarrow>
      \<not> ext_err (scan_ext s) \<and> feature_tests s (scan_ext s) = [Feature_H]) \<and>
   (take 3 s = ''zba'' \<and> (peek s 3 = NUL \<or> peek s 3 = CHR ''_'') \<longrightarrow>
      \<not> ext_err (scan_ext s) \<and> feature_tests s (scan_ext s) = [Feature_Zba])"
  using h_token[of s] zba_token[of s]
  by (simp only: log_parse_hart count_list_append count_features) blast

theorem feature_test_every_occurrence_witness:
  "peek ''h2p0_zba'' 0 = CHR ''h'' \<and>
   \<not> ext_err (scan_ext ''h2p0_zba'') \<and>
   feature_tests ''h2p0_zba'' (scan_ext ''h2p0_zba'') = [Feature_H] \<and>
   take 3 ''zba_h'' = ''zba'' \<and> peek ''zba_h'' 3 = CHR ''_'' \<and>
   \<not> ext_err (scan_ext ''zba_h'') \<and>
   feature_tests ''zba_h'' (scan_ext ''zba_h'') = [Feature_Zba] \<and>
   hart_log (parse_hart CONFIG_64BIT ''rv64h2p0_zba_h'' []) = [Feature_H, Feature_Zba, Feature_H]"
proof -
  have a: "peek ''h2p0_zba'' 0 = CHR ''h''" by (simp add: peek_def)
  have b: "take 3 ''zba_h'' = ''zba'' \<and> peek ''zba_h'' 3 = CHR ''_''" by (simp add: peek_def)
  have c: "hart_log (parse_hart CONFIG_64BIT ''rv64h2p0_zba_h'' []) =
           [Feature_H, Feature_Zba, Feature_H]" by code_simp
  from feature_test_every_occurrence[of CONFIG_64BIT "''rv64h2p0_zba_h''" "[]" "''h2p0_zba''"]
       feature_test_every_occurrence[of CONFIG_64BIT "''rv64h2p0_zba_h''" "[]" "''zba_h''"]
       a b c
  show ?thesis by (simp only: simp_thms)
qed

text \<open>
  C6 as stated fails: a name that occurs twice in one run is reported twice.
\<close>

theorem feature_test_repeated_name:
  "hart_log (parse_hart CONFIG_64BIT ''rv64imafdc_zba_zba'' []) = [Feature_Zba, Feature_Zba] \<and>
   count_list (hart_log (parse_hart CONFIG_64BIT ''rv64imafdc_zba_zba'' [])) Feature_Zba = 2 \<and>
   hart_log (parse_hart CONFIG_64BIT ''rv64imah_h'' []) = [Feature_H, Feature_H]"
  by code_simp

subsection \<open>Folding the harts\<close>

lemma fold_caps_cong:
  "this_hwcap st = this_hwcap st' \<Longrightarrow> this_isa st = this_isa st' \<Longrightarrow>
   this_hwcap (foldl (\<lambda>st (s', t). record_ext s' t st) st toks) =
     this_hwcap (foldl (\<lambda>st (s', t). record_ext s' t st) st' toks) \<and>
   this_isa (foldl (\<lambda>st (s', t). record_ext s' t st) st toks) =
     this_isa (foldl (\<lambda>st (s', t). record_ext s' t st) st' toks)"
proof (induction toks arbitrary: st st')
  case Nil
  then show ?case by simp
next
  case (Cons a toks)
  obtain s' t where a: "a = (s', t)" by (cases a)
  have "this_hwcap (record_ext s' t st) = this_hwcap (record_ext s' t st')"
       "this_isa (record_ext s' t st) = this_isa (record_ext s' t st')"
    using Cons.prems by (simp_all add: record_ext_hwcap record_ext_isa)
  from Cons.IH[OF this] show ?case by (simp add: a)
qed

lemma parse_hart_log_indep:
  "this_hwcap (parse_hart cfg isa lg) = this_hwcap (parse_hart cfg isa []) \<and>
   this_isa (parse_hart cfg isa lg) = this_isa (parse_hart cfg isa [])"
  unfolding parse_hart_def parse_isa_fold
  by (rule fold_caps_cong) simp_all

lemma hart_step_caps:
  "elf_hwcap (foldl (hart_step cfg) g nodes) =
     foldl and_or_init (elf_hwcap g) (hart_caps cfg nodes) \<and>
   riscv_isa (foldl (hart_step cfg) g nodes) =
     foldl and_or_init (riscv_isa g) (hart_isas cfg nodes) \<and>
   cpu_hwcap_fpu (foldl (hart_step cfg) g nodes) = cpu_hwcap_fpu g"
proof (induction nodes arbitrary: g)
  case Nil
  then show ?case by (simp add: hart_caps_def hart_isas_def)
next
  case (Cons node nodes)
  show ?case
  proof (cases "hartid_ok node")
    case False
    then show ?thesis
      using Cons[of g] by (simp add: hart_step_def hart_caps_def hart_isas_def)
  next
    case True
    show ?thesis
    proof (cases "riscv_isa_prop node")
      case None
      with True show ?thesis
        using Cons[of "g\<lparr>kernel_log := kernel_log g @ [Warn_no_isa]\<rparr>"]
        by (simp add: hart_step_def hart_caps_def hart_isas_def)
    next
      case (Some isa)
      with True show ?thesis
        using Cons[of "hart_step cfg g node"] parse_hart_log_indep[of cfg isa "kernel_log g"]
        by (simp add: hart_step_def hart_caps_def hart_isas_def and_or_init_def Let_def)
    qed
  qed
qed





lemma fold_keeps_bit:
  "\<forall>w \<in> set ws. bit w k \<Longrightarrow> acc = 0 \<or> bit acc k \<Longrightarrow> ws \<noteq> [] \<or> acc \<noteq> 0 \<Longrightarrow>
   bit (foldl and_or_init acc ws) k"
proof (induction ws arbitrary: acc)
  case Nil
  then show ?case by auto
next
  case (Cons w ws)
  have b: "bit (and_or_init acc w) k"
    using Cons.prems by (auto simp: and_or_init_def bit_and_iff)
  then have "and_or_init acc w \<noteq> 0" by auto
  with Cons.IH[of "and_or_init acc w"] Cons.prems(1) b show ?case by simp
qed

lemma fold_lacks_bit:
  "\<forall>w \<in> set ws. \<not> bit w k \<Longrightarrow> \<not> bit acc k \<Longrightarrow> \<not> bit (foldl and_or_init acc ws) k"
proof (induction ws arbitrary: acc)
  case Nil
  then show ?case by simp
next
  case (Cons w ws)
  have "\<not> bit (and_or_init acc w) k"
    using Cons.prems by (auto simp: and_or_init_def bit_and_iff)
  with Cons.IH[of "and_or_init acc w"] Cons.prems(1) show ?case by simp
qed

lemma has_bit: "n < 64 \<Longrightarrow> ((w::ulong) AND push_bit n 1 \<noteq> 0) = bit w n"
  by (simp add: and_exp_eq_0_iff_not_bit)

lemma bit_push_1: "k < 64 \<Longrightarrow> bit (push_bit k 1 :: ulong) n = (n = k)"
  by (auto simp: bit_simps)

lemma has_F: "(w AND COMPAT_HWCAP_ISA_F \<noteq> 0) = bit w 5"
  unfolding COMPAT_HWCAP_ISA_F_def by (rule has_bit) simp

lemma has_D: "(w AND COMPAT_HWCAP_ISA_D \<noteq> 0) = bit w 3"
  unfolding COMPAT_HWCAP_ISA_D_def by (rule has_bit) simp

lemma bit_F: "bit COMPAT_HWCAP_ISA_F n = (n = 5)"
  unfolding COMPAT_HWCAP_ISA_F_def by (rule bit_push_1) simp

lemma bit_D: "bit COMPAT_HWCAP_ISA_D n = (n = 3)"
  unfolding COMPAT_HWCAP_ISA_D_def by (rule bit_push_1) simp

lemma has_F_or_D: "(w AND (COMPAT_HWCAP_ISA_F OR COMPAT_HWCAP_ISA_D) \<noteq> 0) = (bit w 5 \<or> bit w 3)"
proof -
  have "w AND (COMPAT_HWCAP_ISA_F OR COMPAT_HWCAP_ISA_D) =
        (w AND COMPAT_HWCAP_ISA_F) OR (w AND COMPAT_HWCAP_ISA_D)"
    by (simp add: bit.conj_disj_distrib)
  then show ?thesis using has_F[of w] has_D[of w] by (simp add: or_eq_0_iff)
qed

lemma finish_elf:
  "elf_hwcap (hwcap_finish g) =
     (if bit (elf_hwcap g) 5 \<and> \<not> bit (elf_hwcap g) 3
      then elf_hwcap g AND NOT COMPAT_HWCAP_ISA_F else elf_hwcap g)"
  by (auto simp: hwcap_finish_def Let_def has_F has_D)

lemma finish_isa: "riscv_isa (hwcap_finish g) = riscv_isa g"
  by (simp add: hwcap_finish_def Let_def)

lemma finish_fpu:
  "cpu_hwcap_fpu (hwcap_finish g) =
     (cpu_hwcap_fpu g \<or> bit (elf_hwcap (hwcap_finish g)) 5 \<or> bit (elf_hwcap (hwcap_finish g)) 3)"
proof -
  have "cpu_hwcap_fpu (hwcap_finish g) =
     (cpu_hwcap_fpu g \<or>
      elf_hwcap (hwcap_finish g) AND (COMPAT_HWCAP_ISA_F OR COMPAT_HWCAP_ISA_D) \<noteq> 0)"
    by (simp add: hwcap_finish_def Let_def)
  then show ?thesis by (simp only: has_F_or_D)
qed

lemma bit_finish_elf:
  "bit (elf_hwcap (hwcap_finish g)) n =
     (bit (elf_hwcap g) n \<and> (n = 5 \<longrightarrow> bit (elf_hwcap g) 3))"
  by (auto simp: finish_elf bit_and_iff bit_not_iff bit_F dest: bit_imp_possible_bit)

lemma fill_elf:
  "elf_hwcap (riscv_fill_hwcap cfg nodes) =
     (if bit (foldl and_or_init 0 (hart_caps cfg nodes)) 5 \<and>
         \<not> bit (foldl and_or_init 0 (hart_caps cfg nodes)) 3
      then foldl and_or_init 0 (hart_caps cfg nodes) AND NOT COMPAT_HWCAP_ISA_F
      else foldl and_or_init 0 (hart_caps cfg nodes))"
  using hart_step_caps[of cfg hwcap_init nodes]
  by (simp add: riscv_fill_hwcap_def finish_elf hwcap_init_def)

lemma bit_fill_elf:
  "bit (elf_hwcap (riscv_fill_hwcap cfg nodes)) n =
     (bit (foldl and_or_init 0 (hart_caps cfg nodes)) n \<and>
      (n = 5 \<longrightarrow> bit (foldl and_or_init 0 (hart_caps cfg nodes)) 3))"
  using hart_step_caps[of cfg hwcap_init nodes]
  by (simp add: riscv_fill_hwcap_def bit_finish_elf hwcap_init_def)

lemma fill_isa:
  "riscv_isa (riscv_fill_hwcap cfg nodes) = foldl and_or_init 0 (hart_isas cfg nodes)"
  using hart_step_caps[of cfg hwcap_init nodes]
  by (simp add: riscv_fill_hwcap_def finish_isa hwcap_init_def)

lemma fill_fpu:
  "cpu_hwcap_fpu (riscv_fill_hwcap cfg nodes) =
     (bit (elf_hwcap (riscv_fill_hwcap cfg nodes)) 5 \<or>
      bit (elf_hwcap (riscv_fill_hwcap cfg nodes)) 3)"
  using hart_step_caps[of cfg hwcap_init nodes] finish_fpu[of "foldl (hart_step cfg) hwcap_init nodes"]
  by (simp add: riscv_fill_hwcap_def hwcap_init_def)

lemma lacks_F: "(w AND COMPAT_HWCAP_ISA_F = 0) = (\<not> bit w 5)"
  using has_F[of w] by blast

lemma lacks_D: "(w AND COMPAT_HWCAP_ISA_D = 0) = (\<not> bit w 3)"
  using has_D[of w] by blast

text \<open>
  C5. The frozen mask is the aggregated mask with the F bit cleared when the aggregated
  mask has F but not D; so the frozen mask never has F without D. The floating-point key
  (of a kernel built with \<open>CONFIG_FPU\<close>) is enabled exactly when the frozen mask has F
  or D. If every contributing hart reports F without D, the frozen mask lacks F and the
  key is off. If there is a contributing hart and every contributing hart reports both F
  and D, the frozen mask has both and the key is on.
\<close>

theorem float_without_double_rule:
  "elf_hwcap (riscv_fill_hwcap cfg nodes) =
     (if elf_hwcap (foldl (hart_step cfg) hwcap_init nodes) AND COMPAT_HWCAP_ISA_F \<noteq> 0 \<and>
         elf_hwcap (foldl (hart_step cfg) hwcap_init nodes) AND COMPAT_HWCAP_ISA_D = 0
      then elf_hwcap (foldl (hart_step cfg) hwcap_init nodes) AND NOT COMPAT_HWCAP_ISA_F
      else elf_hwcap (foldl (hart_step cfg) hwcap_init nodes)) \<and>
   \<not> (elf_hwcap (riscv_fill_hwcap cfg nodes) AND COMPAT_HWCAP_ISA_F \<noteq> 0 \<and>
      elf_hwcap (riscv_fill_hwcap cfg nodes) AND COMPAT_HWCAP_ISA_D = 0) \<and>
   cpu_hwcap_fpu (riscv_fill_hwcap cfg nodes) =
     (elf_hwcap (riscv_fill_hwcap cfg nodes) AND COMPAT_HWCAP_ISA_F \<noteq> 0 \<or>
      elf_hwcap (riscv_fill_hwcap cfg nodes) AND COMPAT_HWCAP_ISA_D \<noteq> 0) \<and>
   ((\<forall>w \<in> set (hart_caps cfg nodes).
        w AND COMPAT_HWCAP_ISA_F \<noteq> 0 \<and> w AND COMPAT_HWCAP_ISA_D = 0) \<longrightarrow>
      elf_hwcap (riscv_fill_hwcap cfg nodes) AND COMPAT_HWCAP_ISA_F = 0 \<and>
      \<not> cpu_hwcap_fpu (riscv_fill_hwcap cfg nodes)) \<and>
   (hart_caps cfg nodes \<noteq> [] \<and>
    (\<forall>w \<in> set (hart_caps cfg nodes).
        w AND COMPAT_HWCAP_ISA_F \<noteq> 0 \<and> w AND COMPAT_HWCAP_ISA_D \<noteq> 0) \<longrightarrow>
      elf_hwcap (riscv_fill_hwcap cfg nodes) AND COMPAT_HWCAP_ISA_F \<noteq> 0 \<and>
      elf_hwcap (riscv_fill_hwcap cfg nodes) AND COMPAT_HWCAP_ISA_D \<noteq> 0 \<and>
      cpu_hwcap_fpu (riscv_fill_hwcap cfg nodes))"
proof -
  let ?agg = "foldl and_or_init 0 (hart_caps cfg nodes)"
  let ?elf = "elf_hwcap (riscv_fill_hwcap cfg nodes)"
  have agg: "elf_hwcap (foldl (hart_step cfg) hwcap_init nodes) = ?agg"
    using hart_step_caps[of cfg hwcap_init nodes] by (simp add: hwcap_init_def)
  have c1: "?elf =
     (if elf_hwcap (foldl (hart_step cfg) hwcap_init nodes) AND COMPAT_HWCAP_ISA_F \<noteq> 0 \<and>
         elf_hwcap (foldl (hart_step cfg) hwcap_init nodes) AND COMPAT_HWCAP_ISA_D = 0
      then elf_hwcap (foldl (hart_step cfg) hwcap_init nodes) AND NOT COMPAT_HWCAP_ISA_F
      else elf_hwcap (foldl (hart_step cfg) hwcap_init nodes))"
    by (simp only: agg fill_elf has_F lacks_D)
  have b5: "bit ?elf 5 = (bit ?agg 5 \<and> bit ?agg 3)" and b3: "bit ?elf 3 = bit ?agg 3"
    by (simp_all add: bit_fill_elf)
  have c2: "\<not> (?elf AND COMPAT_HWCAP_ISA_F \<noteq> 0 \<and> ?elf AND COMPAT_HWCAP_ISA_D = 0)"
    by (simp only: has_F lacks_D b5 b3) blast
  have c3: "cpu_hwcap_fpu (riscv_fill_hwcap cfg nodes) =
     (?elf AND COMPAT_HWCAP_ISA_F \<noteq> 0 \<or> ?elf AND COMPAT_HWCAP_ISA_D \<noteq> 0)"
    by (simp only: has_F has_D fill_fpu)
  have c4: "?elf AND COMPAT_HWCAP_ISA_F = 0 \<and> \<not> cpu_hwcap_fpu (riscv_fill_hwcap cfg nodes)"
    if h: "\<forall>w \<in> set (hart_caps cfg nodes).
        w AND COMPAT_HWCAP_ISA_F \<noteq> 0 \<and> w AND COMPAT_HWCAP_ISA_D = 0"
  proof -
    from h have "\<forall>w \<in> set (hart_caps cfg nodes). \<not> bit w 3" by (simp add: lacks_D)
    from fold_lacks_bit[OF this, of 0] have "\<not> bit ?agg 3" by simp
    then show ?thesis by (simp add: fill_fpu lacks_F b5 b3)
  qed
  have c5: "?elf AND COMPAT_HWCAP_ISA_F \<noteq> 0 \<and> ?elf AND COMPAT_HWCAP_ISA_D \<noteq> 0 \<and>
      cpu_hwcap_fpu (riscv_fill_hwcap cfg nodes)"
    if ne: "hart_caps cfg nodes \<noteq> []" and h: "\<forall>w \<in> set (hart_caps cfg nodes).
        w AND COMPAT_HWCAP_ISA_F \<noteq> 0 \<and> w AND COMPAT_HWCAP_ISA_D \<noteq> 0"
  proof -
    from h have f: "\<forall>w \<in> set (hart_caps cfg nodes). bit w 5"
      and d: "\<forall>w \<in> set (hart_caps cfg nodes). bit w 3" by (simp_all add: has_F has_D)
    from fold_keeps_bit[OF f, of 0] ne have "bit ?agg 5" by simp
    moreover from fold_keeps_bit[OF d, of 0] ne have "bit ?agg 3" by simp
    ultimately show ?thesis by (simp add: fill_fpu has_F has_D b5 b3)
  qed
  from c1 c2 c3 c4 c5 show ?thesis by blast
qed

theorem float_without_double_rule_witness:
  "list_all (\<lambda>w. w AND COMPAT_HWCAP_ISA_F \<noteq> 0 \<and> w AND COMPAT_HWCAP_ISA_D = 0)
     (hart_caps CONFIG_64BIT
        [\<lparr>hartid_ok = True, riscv_isa_prop = Some ''rv64imaf''\<rparr>,
         \<lparr>hartid_ok = True, riscv_isa_prop = Some ''rv64imafc''\<rparr>]) \<and>
   elf_hwcap (riscv_fill_hwcap CONFIG_64BIT
        [\<lparr>hartid_ok = True, riscv_isa_prop = Some ''rv64imaf''\<rparr>,
         \<lparr>hartid_ok = True, riscv_isa_prop = Some ''rv64imafc''\<rparr>]) AND COMPAT_HWCAP_ISA_F = 0 \<and>
   \<not> cpu_hwcap_fpu (riscv_fill_hwcap CONFIG_64BIT
        [\<lparr>hartid_ok = True, riscv_isa_prop = Some ''rv64imaf''\<rparr>,
         \<lparr>hartid_ok = True, riscv_isa_prop = Some ''rv64imafc''\<rparr>]) \<and>
   hart_caps CONFIG_64BIT
        [\<lparr>hartid_ok = True, riscv_isa_prop = Some ''rv64imafdc''\<rparr>,
         \<lparr>hartid_ok = False, riscv_isa_prop = Some ''rv64i''\<rparr>,
         \<lparr>hartid_ok = True, riscv_isa_prop = Some ''rv64imafd''\<rparr>] \<noteq> [] \<and>
   list_all (\<lambda>w. w AND COMPAT_HWCAP_ISA_F \<noteq> 0 \<and> w AND COMPAT_HWCAP_ISA_D \<noteq> 0)
     (hart_caps CONFIG_64BIT
        [\<lparr>hartid_ok = True, riscv_isa_prop = Some ''rv64imafdc''\<rparr>,
         \<lparr>hartid_ok = False, riscv_isa_prop = Some ''rv64i''\<rparr>,
         \<lparr>hartid_ok = True, riscv_isa_prop = Some ''rv64imafd''\<rparr>]) \<and>
   elf_hwcap (riscv_fill_hwcap CONFIG_64BIT
        [\<lparr>hartid_ok = True, riscv_isa_prop = Some ''rv64imafdc''\<rparr>,
         \<lparr>hartid_ok = False, riscv_isa_prop = Some ''rv64i''\<rparr>,
         \<lparr>hartid_ok = True, riscv_isa_prop = Some ''rv64imafd''\<rparr>]) AND COMPAT_HWCAP_ISA_F \<noteq> 0 \<and>
   elf_hwcap (riscv_fill_hwcap CONFIG_64BIT
        [\<lparr>hartid_ok = True, riscv_isa_prop = Some ''rv64imafdc''\<rparr>,
         \<lparr>hartid_ok = False, riscv_isa_prop = Some ''rv64i''\<rparr>,
         \<lparr>hartid_ok = True, riscv_isa_prop = Some ''rv64imafd''\<rparr>]) AND COMPAT_HWCAP_ISA_D \<noteq> 0 \<and>
   cpu_hwcap_fpu (riscv_fill_hwcap CONFIG_64BIT
        [\<lparr>hartid_ok = True, riscv_isa_prop = Some ''rv64imafdc''\<rparr>,
         \<lparr>hartid_ok = False, riscv_isa_prop = Some ''rv64i''\<rparr>,
         \<lparr>hartid_ok = True, riscv_isa_prop = Some ''rv64imafd''\<rparr>])"
proof -
  let ?N1 = "[\<lparr>hartid_ok = True, riscv_isa_prop = Some ''rv64imaf''\<rparr>,
         \<lparr>hartid_ok = True, riscv_isa_prop = Some ''rv64imafc''\<rparr>]"
  let ?N2 = "[\<lparr>hartid_ok = True, riscv_isa_prop = Some ''rv64imafdc''\<rparr>,
         \<lparr>hartid_ok = False, riscv_isa_prop = Some ''rv64i''\<rparr>,
         \<lparr>hartid_ok = True, riscv_isa_prop = Some ''rv64imafd''\<rparr>]"
  have h1: "list_all (\<lambda>w. w AND COMPAT_HWCAP_ISA_F \<noteq> 0 \<and> w AND COMPAT_HWCAP_ISA_D = 0)
     (hart_caps CONFIG_64BIT ?N1)" by code_simp
  have h2: "list_all (\<lambda>w. w AND COMPAT_HWCAP_ISA_F \<noteq> 0 \<and> w AND COMPAT_HWCAP_ISA_D \<noteq> 0)
     (hart_caps CONFIG_64BIT ?N2)" by code_simp
  have h3: "hart_caps CONFIG_64BIT ?N2 \<noteq> []" by code_simp
  from h1 have b1: "\<forall>w \<in> set (hart_caps CONFIG_64BIT ?N1).
        w AND COMPAT_HWCAP_ISA_F \<noteq> 0 \<and> w AND COMPAT_HWCAP_ISA_D = 0"
    by (simp only: list_all_iff)
  from h2 have b2: "\<forall>w \<in> set (hart_caps CONFIG_64BIT ?N2).
        w AND COMPAT_HWCAP_ISA_F \<noteq> 0 \<and> w AND COMPAT_HWCAP_ISA_D \<noteq> 0"
    by (simp only: list_all_iff)
  from float_without_double_rule[of CONFIG_64BIT ?N1] b1
  have r1: "elf_hwcap (riscv_fill_hwcap CONFIG_64BIT ?N1) AND COMPAT_HWCAP_ISA_F = 0 \<and>
      \<not> cpu_hwcap_fpu (riscv_fill_hwcap CONFIG_64BIT ?N1)" by blast
  from float_without_double_rule[of CONFIG_64BIT ?N2] b2 h3
  have r2: "elf_hwcap (riscv_fill_hwcap CONFIG_64BIT ?N2) AND COMPAT_HWCAP_ISA_F \<noteq> 0 \<and>
      elf_hwcap (riscv_fill_hwcap CONFIG_64BIT ?N2) AND COMPAT_HWCAP_ISA_D \<noteq> 0 \<and>
      cpu_hwcap_fpu (riscv_fill_hwcap CONFIG_64BIT ?N2)" by blast
  from h1 h2 h3 r1 r2 show ?thesis by (simp only: simp_thms)
qed

subsection \<open>Aggregation and intersection\<close>














subsection \<open>Scanning inside a longer string\<close>

lemma peek_append:
  "peek (xs @ ys) i = (if i < length xs then xs ! i else peek ys (i - length xs))"
  by (auto simp: peek_def nth_append)

lemma peek_Cons_0: "peek (c # s) 0 = c"
  by (simp add: peek_def)

lemma peek_Cons_Suc: "peek (c # s) (Suc i) = peek s i"
  by (simp add: peek_def)

lemma peek_Nil [simp]: "peek [] i = NUL"
  by (simp add: peek_def)

lemma not_isdigit_NUL [simp]: "\<not> isdigit NUL"
  by (simp add: isdigit_def NUL_def)

lemma skip_digits_append:
  "list_all isdigit ds \<Longrightarrow> \<not> isdigit (peek rest 0) \<Longrightarrow>
   skip_digits (pre @ ds @ rest) (length pre) = length pre + length ds"
proof (induction ds arbitrary: pre)
  case Nil
  then show ?case by (subst skip_digits.simps) (simp add: peek_append)
next
  case (Cons d ds)
  from Cons.prems have d: "isdigit d" and ds: "list_all isdigit ds" by simp_all
  have "skip_digits (pre @ (d # ds) @ rest) (length pre) =
        skip_digits (pre @ (d # ds) @ rest) (Suc (length pre))"
    using d by (subst skip_digits.simps) (simp add: peek_append peek_Cons_0)
  also have "\<dots> = skip_digits ((pre @ [d]) @ ds @ rest) (length (pre @ [d]))" by simp
  also have "\<dots> = length (pre @ [d]) + length ds"
    using Cons.IH[OF ds Cons.prems(2)] .
  finally show ?case by simp
qed

lemma long_run_append:
  "list_all (\<lambda>x. x \<noteq> NUL \<and> x \<noteq> CHR ''_'') run \<Longrightarrow>
   peek rest 0 = NUL \<or> peek rest 0 = CHR ''_'' \<Longrightarrow>
   long_run (pre @ run @ rest) (length pre) err =
     (length pre + length run, err \<or> list_ex (\<lambda>x. \<not> islower x \<and> \<not> isdigit x) run)"
proof (induction run arbitrary: pre err)
  case Nil
  then show ?case by (subst long_run.simps) (auto simp: peek_append)
next
  case (Cons x run)
  from Cons.prems have x: "x \<noteq> NUL \<and> x \<noteq> CHR ''_''"
    and r: "list_all (\<lambda>x. x \<noteq> NUL \<and> x \<noteq> CHR ''_'') run" by simp_all
  have "long_run (pre @ (x # run) @ rest) (length pre) err =
        long_run (pre @ (x # run) @ rest) (Suc (length pre))
          (err \<or> (\<not> islower x \<and> \<not> isdigit x))"
    using x by (subst long_run.simps) (simp add: peek_append peek_Cons_0)
  also have "\<dots> = long_run ((pre @ [x]) @ run @ rest) (length (pre @ [x]))
          (err \<or> (\<not> islower x \<and> \<not> isdigit x))" by simp
  also have "\<dots> = (length (pre @ [x]) + length run,
          (err \<or> (\<not> islower x \<and> \<not> isdigit x)) \<or>
          list_ex (\<lambda>x. \<not> islower x \<and> \<not> isdigit x) run)"
    using Cons.IH[OF r Cons.prems(2)] .
  finally show ?case by auto
qed

lemma back_digits_stops:
  "\<not> isdigit (peek s 0) \<Longrightarrow> 0 < e \<Longrightarrow>
   back_digits s e < e \<and> \<not> isdigit (peek s (back_digits s e))"
proof (induction e)
  case 0
  then show ?case by simp
next
  case (Suc e)
  show ?case
  proof (cases "isdigit (peek s e)")
    case False
    then show ?thesis by simp
  next
    case True
    with Suc.prems(1) have "0 < e" by (cases e) auto
    from Suc.IH[OF Suc.prems(1) this] True show ?thesis by simp
  qed
qed

lemma isa_off_scan_short_eq:
  "islower (peek s 0) \<Longrightarrow>
   isa_off (scan_short s) =
     (if \<not> isdigit (peek s (Suc 0)) then Suc 0
      else if peek s (skip_digits s (Suc (Suc 0))) = CHR ''p'' \<and>
              isdigit (peek s (Suc (skip_digits s (Suc (Suc 0)))))
           then skip_digits s (Suc (Suc (skip_digits s (Suc (Suc 0)))))
           else skip_digits s (Suc (Suc 0)))"
  by (simp add: scan_short_def Let_def numeral_2_eq_2 split: sum.splits)

lemma digit_run_Cons: "digit_run a \<Longrightarrow> \<exists>d a'. a = d # a' \<and> isdigit d \<and> list_all isdigit a'"
  by (cases a) (auto simp: digit_run_def)

lemma p_not_digit [simp]: "\<not> isdigit (CHR ''p'')"
  by (simp add: isdigit_def)

lemma skip_after_major:
  assumes "isdigit d" "list_all isdigit a'" "\<not> isdigit (peek rest 0)"
  shows "skip_digits (c # d # a' @ rest) (Suc (Suc 0)) = Suc (Suc (length a'))"
proof -
  have "skip_digits ([c, d] @ a' @ rest) (length [c, d]) = length [c, d] + length a'"
    using assms(2,3) by (rule skip_digits_append)
  then show ?thesis by simp
qed

lemma peek_after_major:
  "peek (c # d # a' @ rest) (Suc (Suc (length a') + k)) = peek rest k"
  by (simp add: peek_def nth_append)

lemma isa_off_letter_token:
  assumes wf: "single_letter_token (c, v)" and fo: "may_follow v rest"
  shows "isa_off (scan_short (token_text (c, v) @ rest)) = length (token_text (c, v))"
proof -
  from wf have lc: "islower c" by (simp add: single_letter_token_def)
  from fo have nd: "\<not> isdigit (peek rest 0)" by (simp add: may_follow_def)
  show ?thesis
  proof (cases v)
    case Unversioned
    then show ?thesis
      using lc nd by (simp add: token_text_def isa_off_scan_short_eq peek_Cons_0 peek_Cons_Suc)
  next
    case (Major a)
    with wf have "digit_run a" by (simp add: single_letter_token_def)
    then obtain d a' where a: "a = d # a'" "isdigit d" "list_all isdigit a'"
      using digit_run_Cons by blast
    let ?s = "c # d # a' @ rest"
    have sk: "skip_digits ?s (Suc (Suc 0)) = Suc (Suc (length a'))"
      using a(2,3) nd by (rule skip_after_major)
    have p0: "peek ?s (Suc (Suc (length a'))) = peek rest 0"
      using peek_after_major[of c d a' rest 0] by simp
    have p1: "peek ?s (Suc (Suc (Suc (length a')))) = peek rest 1"
      using peek_after_major[of c d a' rest 1] by simp
    from fo Major have "\<not> (peek rest 0 = CHR ''p'' \<and> isdigit (peek rest 1))"
      by (simp add: may_follow_def)
    moreover have q: "peek ?s 0 = c" "peek ?s (Suc 0) = d" by (simp_all add: peek_def)
    ultimately have "isa_off (scan_short ?s) = Suc (Suc (length a'))"
      using lc a(2) by (auto simp: isa_off_scan_short_eq sk p0 p1)
    then show ?thesis by (simp add: token_text_def Major a(1))
  next
    case (Major_minor a b)
    with wf have "digit_run a" "digit_run b" by (simp_all add: single_letter_token_def)
    then obtain d a' e b' where a: "a = d # a'" "isdigit d" "list_all isdigit a'"
      and b: "b = e # b'" "isdigit e" "list_all isdigit b'"
      using digit_run_Cons by blast
    let ?s = "c # d # a' @ CHR ''p'' # e # b' @ rest"
    have sk: "skip_digits ?s (Suc (Suc 0)) = Suc (Suc (length a'))"
      using skip_after_major[OF a(2,3), of "CHR ''p'' # e # b' @ rest" c]
      by (simp add: peek_Cons_0)
    have p0: "peek ?s (Suc (Suc (length a'))) = CHR ''p''"
      using peek_after_major[of c d a' "CHR ''p'' # e # b' @ rest" 0]
      by (simp add: peek_Cons_0)
    have p1: "peek ?s (Suc (Suc (Suc (length a')))) = e"
      using peek_after_major[of c d a' "CHR ''p'' # e # b' @ rest" 1]
      by (simp add: peek_Cons_0 peek_Cons_Suc)
    have "skip_digits ((c # d # a' @ [CHR ''p'', e]) @ b' @ rest)
            (length (c # d # a' @ [CHR ''p'', e])) =
          length (c # d # a' @ [CHR ''p'', e]) + length b'"
      using b(3) nd by (rule skip_digits_append)
    then have sk2: "skip_digits ?s (Suc (Suc (Suc (Suc (length a'))))) =
          Suc (Suc (Suc (Suc (length a' + length b'))))" by simp
    have q: "peek ?s 0 = c" "peek ?s (Suc 0) = d" by (simp_all add: peek_def)
    have "isa_off (scan_short ?s) = Suc (Suc (Suc (Suc (length a' + length b'))))"
      using lc a(2) b(2) by (simp add: isa_off_scan_short_eq sk p0 p1 sk2 q)
    then show ?thesis by (simp add: token_text_def Major_minor a(1) b(1))
  qed
qed

subsection \<open>Delimiters between single-letter tokens\<close>

lemma parse_isa_Nil: "parse_isa [] st = st"
  by (subst parse_isa.simps) simp

lemma islower_not_NUL: "islower c \<Longrightarrow> c \<noteq> NUL"
  by (auto simp: islower_def NUL_def)

lemma islower_not_digit: "islower c \<Longrightarrow> \<not> isdigit c"
  by (auto simp: islower_def isdigit_def)

lemma islower_not_delim: "islower c \<Longrightarrow> c \<noteq> CHR ''_''"
  by (auto simp: islower_def)

lemma feature_tests_letter:
  "ext_end t = 1 \<Longrightarrow> feature_tests (c # s) t = (if c = CHR ''h'' then [Feature_H] else [])"
  by (simp add: feature_tests_def MATCH_EXT_def)

lemma parse_letter_token:
  assumes wf: "single_letter_token (c, v)" and fo: "may_follow v rest"
  shows "parse_isa (token_text (c, v) @ rest) st =
         parse_isa (after_delimiter rest) (letter_effect c st)"
proof -
  let ?tok = "token_text (c, v)"
  let ?s = "?tok @ rest"
  have s: "?s = c # version_text v @ rest" by (simp add: token_text_def)
  from wf have lc: "islower c"
    and nl: "c \<noteq> CHR ''s'' \<and> c \<noteq> CHR ''x'' \<and> c \<noteq> CHR ''z''"
    by (simp_all add: single_letter_token_def)
  have p0: "peek ?s 0 = c" by (simp add: s peek_Cons_0)
  have nn: "peek ?s 0 \<noteq> NUL" using lc islower_not_NUL by (simp add: p0)
  have sc: "scan_ext ?s = scan_short ?s" using nl by (simp add: scan_ext_def p0)
  have fl: "\<not> ext_long (scan_ext ?s) \<and> ext_end (scan_ext ?s) = 1 \<and> \<not> ext_err (scan_ext ?s)"
    using lc by (simp add: sc scan_short_flags p0)
  have off: "isa_off (scan_ext ?s) = length ?tok"
    using isa_off_letter_token[OF wf fo] by (simp add: sc)
  have rec: "record_ext ?s (scan_ext ?s) st = letter_effect c st"
    using fl feature_tests_letter[of "scan_ext ?s" c "version_text v @ rest"]
    by (simp add: record_ext_def letter_effect_def p0 flip: s)
  have len: "0 < length ?tok" by (simp add: token_text_def)
  have pk: "peek ?s (length ?tok) = peek rest 0" by (simp add: peek_append)
  have nx: "drop (next_isa ?s) ?s = after_delimiter rest"
  proof (cases "peek rest 0 = CHR ''_''")
    case True
    then have "next_isa ?s = Suc (length ?tok)" by (simp add: next_isa_def off pk)
    then show ?thesis using True by (simp add: after_delimiter_def)
  next
    case False
    then have "next_isa ?s = length ?tok" using len by (simp add: next_isa_def off pk)
    then show ?thesis using False by (simp add: after_delimiter_def)
  qed
  show ?thesis
    using nn by (subst parse_isa.simps) (simp only: rec nx if_False)
qed

lemma peek_token_text: "peek (token_text t @ r) 0 = fst t"
  by (simp add: token_text_def peek_Cons_0)

lemma peek_undelimited:
  "peek (undelimited ts) 0 = (case ts of [] \<Rightarrow> NUL | t # _ \<Rightarrow> fst t)"
  by (cases ts) (simp_all add: token_text_def peek_Cons_0 peek_def)

lemma peek_delimited:
  "peek (delimited ts) 0 = (case ts of [] \<Rightarrow> NUL | t # _ \<Rightarrow> fst t)"
proof (cases ts)
  case Nil
  then show ?thesis by (simp add: peek_def)
next
  case (Cons t us)
  then show ?thesis by (cases us) (simp_all add: token_text_def peek_Cons_0)
qed

lemma peek_undelimited_1:
  "list_all single_letter_token us \<Longrightarrow> snd u = Unversioned \<Longrightarrow>
   \<not> isdigit (peek (undelimited (u # us)) 1)"
proof -
  assume a: "list_all single_letter_token us" and u: "snd u = Unversioned"
  have "peek (undelimited (u # us)) 1 = peek (undelimited us) 0"
    using u by (simp add: token_text_def peek_Cons_Suc)
  also have "\<dots> = (case us of [] \<Rightarrow> NUL | t # _ \<Rightarrow> fst t)" by (rule peek_undelimited)
  finally show ?thesis
    using a by (cases us) (auto simp: single_letter_token_def islower_not_digit)
qed

lemma may_follow_undelimited:
  assumes "list_all single_letter_token (t # ts)" "unambiguous (t # ts)"
  shows "may_follow (snd t) (undelimited ts)"
proof (cases ts)
  case Nil
  then show ?thesis by (simp add: may_follow_def NUL_def isdigit_def)
next
  case (Cons u us)
  from assms(1) Cons have lu: "islower (fst u)" and wus: "list_all single_letter_token us"
    by (simp_all add: single_letter_token_def)
  have p0: "peek (undelimited ts) 0 = fst u" by (simp add: Cons peek_token_text)
  have "\<not> (major_only (snd t) \<and> fst u = CHR ''p'' \<and> isdigit (peek (undelimited ts) 1))"
  proof
    assume h: "major_only (snd t) \<and> fst u = CHR ''p'' \<and> isdigit (peek (undelimited ts) 1)"
    with assms(2) Cons have "snd u = Unversioned" by simp
    from peek_undelimited_1[OF wus this] h Cons show False by simp
  qed
  then show ?thesis using lu by (simp add: may_follow_def p0 islower_not_digit)
qed

lemma after_delimiter_undelimited:
  "list_all single_letter_token ts \<Longrightarrow> after_delimiter (undelimited ts) = undelimited ts"
proof -
  assume a: "list_all single_letter_token ts"
  have "peek (undelimited ts) 0 \<noteq> CHR ''_''"
  proof (cases ts)
    case Nil
    then show ?thesis by (simp add: NUL_def)
  next
    case (Cons t us)
    with a have "islower (fst t)" by (simp add: single_letter_token_def)
    then show ?thesis using islower_not_delim by (simp add: Cons peek_token_text)
  qed
  then show ?thesis by (simp add: after_delimiter_def)
qed

lemma parse_undelimited:
  "list_all single_letter_token ts \<Longrightarrow> unambiguous ts \<Longrightarrow>
   parse_isa (undelimited ts) st = foldl (\<lambda>st t. letter_effect (fst t) st) st ts"
proof (induction ts arbitrary: st)
  case Nil
  then show ?case by (simp add: parse_isa_Nil)
next
  case (Cons t ts)
  obtain c v where t: "t = (c, v)" by (cases t)
  from Cons.prems have wt: "single_letter_token (c, v)" and wts: "list_all single_letter_token ts"
    by (simp_all add: t)
  from Cons.prems(2) have un: "unambiguous ts" by (cases ts) simp_all
  have mf: "may_follow v (undelimited ts)"
    using may_follow_undelimited[OF Cons.prems] by (simp add: t)
  have "parse_isa (undelimited (t # ts)) st =
        parse_isa (after_delimiter (undelimited ts)) (letter_effect c st)"
    using parse_letter_token[OF wt mf] by (simp add: t)
  also have "\<dots> = parse_isa (undelimited ts) (letter_effect c st)"
    by (simp only: after_delimiter_undelimited[OF wts])
  also have "\<dots> = foldl (\<lambda>st t. letter_effect (fst t) st) (letter_effect c st) ts"
    using Cons.IH[OF wts un] .
  finally show ?case by (simp add: t)
qed

lemma parse_delimited:
  "list_all single_letter_token ts \<Longrightarrow>
   parse_isa (delimited ts) st = foldl (\<lambda>st t. letter_effect (fst t) st) st ts"
proof (induction ts arbitrary: st rule: delimited.induct)
  case 1
  then show ?case by (simp add: parse_isa_Nil)
next
  case (2 t)
  obtain c v where t: "t = (c, v)" by (cases t)
  from 2 have wt: "single_letter_token (c, v)" by (simp add: t)
  have mf: "may_follow v []" by (simp add: may_follow_def NUL_def isdigit_def)
  have "parse_isa (token_text (c, v) @ []) st = parse_isa (after_delimiter []) (letter_effect c st)"
    using wt mf by (rule parse_letter_token)
  then show ?case by (simp add: t after_delimiter_def parse_isa_Nil)
next
  case (3 t u ts)
  obtain c v where t: "t = (c, v)" by (cases t)
  from 3(2) have wt: "single_letter_token (c, v)" and wts: "list_all single_letter_token (u # ts)"
    by (simp_all add: t)
  let ?rest = "CHR ''_'' # delimited (u # ts)"
  have mf: "may_follow v ?rest" by (simp add: may_follow_def peek_Cons_0 isdigit_def)
  have ad: "after_delimiter ?rest = delimited (u # ts)"
    by (simp add: after_delimiter_def peek_Cons_0)
  have "parse_isa (token_text (c, v) @ ?rest) st =
        parse_isa (after_delimiter ?rest) (letter_effect c st)"
    using wt mf by (rule parse_letter_token)
  then have "parse_isa (delimited (t # u # ts)) st =
        parse_isa (delimited (u # ts)) (letter_effect c st)"
    by (simp add: t ad)
  also have "\<dots> = foldl (\<lambda>st t. letter_effect (fst t) st) (letter_effect c st) (u # ts)"
    using 3(1)[OF wts] .
  finally show ?case by (simp add: t)
qed

lemma strip_prefix_configured:
  "strip_prefix CONFIG_64BIT (''rv64'' @ x) = x" "strip_prefix CONFIG_32BIT (''rv32'' @ x) = x"
  by (simp_all add: strip_prefix_def)

text \<open>
  C8, as the code has it. For a sequence of single-letter tokens (a lowercase letter
  other than \<open>s\<close>, \<open>x\<close>, \<open>z\<close>, with no version, a major version, or a major and a minor
  version) in which no token with a bare major version is directly followed by a versioned
  token \<open>p\<close>, the string written without delimiters and the string written with \<open>_\<close>
  between the tokens give the same run: the same final state from any state, namely each
  token's letter recorded in turn, and so the same per-hart ISA word and capability mask
  behind the configured width prefix.
\<close>

theorem delimiters_between_letter_tokens:
  "list_all single_letter_token ts \<and> unambiguous ts \<longrightarrow>
     parse_isa (undelimited ts) st = parse_isa (delimited ts) st \<and>
     parse_isa (delimited ts) st = foldl (\<lambda>st t. letter_effect (fst t) st) st ts \<and>
     this_isa (parse_hart CONFIG_64BIT (''rv64'' @ undelimited ts) lg) =
       this_isa (parse_hart CONFIG_64BIT (''rv64'' @ delimited ts) lg) \<and>
     this_hwcap (parse_hart CONFIG_64BIT (''rv64'' @ undelimited ts) lg) =
       this_hwcap (parse_hart CONFIG_64BIT (''rv64'' @ delimited ts) lg) \<and>
     this_isa (parse_hart CONFIG_32BIT (''rv32'' @ undelimited ts) lg) =
       this_isa (parse_hart CONFIG_32BIT (''rv32'' @ delimited ts) lg) \<and>
     this_hwcap (parse_hart CONFIG_32BIT (''rv32'' @ undelimited ts) lg) =
       this_hwcap (parse_hart CONFIG_32BIT (''rv32'' @ delimited ts) lg)"
proof
  assume h: "list_all single_letter_token ts \<and> unambiguous ts"
  have e: "parse_isa (undelimited ts) st' = parse_isa (delimited ts) st'" for st'
    using h by (simp add: parse_undelimited parse_delimited)
  have f: "parse_isa (delimited ts) st = foldl (\<lambda>st t. letter_effect (fst t) st) st ts"
    using h by (simp add: parse_delimited)
  show "parse_isa (undelimited ts) st = parse_isa (delimited ts) st \<and>
     parse_isa (delimited ts) st = foldl (\<lambda>st t. letter_effect (fst t) st) st ts \<and>
     this_isa (parse_hart CONFIG_64BIT (''rv64'' @ undelimited ts) lg) =
       this_isa (parse_hart CONFIG_64BIT (''rv64'' @ delimited ts) lg) \<and>
     this_hwcap (parse_hart CONFIG_64BIT (''rv64'' @ undelimited ts) lg) =
       this_hwcap (parse_hart CONFIG_64BIT (''rv64'' @ delimited ts) lg) \<and>
     this_isa (parse_hart CONFIG_32BIT (''rv32'' @ undelimited ts) lg) =
       this_isa (parse_hart CONFIG_32BIT (''rv32'' @ delimited ts) lg) \<and>
     this_hwcap (parse_hart CONFIG_32BIT (''rv32'' @ undelimited ts) lg) =
       this_hwcap (parse_hart CONFIG_32BIT (''rv32'' @ delimited ts) lg)"
    using f by (simp only: parse_hart_def strip_prefix_configured e simp_thms)
qed

theorem delimiters_between_letter_tokens_witness:
  "list_all single_letter_token
     [(CHR ''i'', Major_minor ''2'' ''1''), (CHR ''m'', Unversioned), (CHR ''a'', Major ''2''),
      (CHR ''p'', Unversioned), (CHR ''h'', Unversioned)] \<and>
   unambiguous
     [(CHR ''i'', Major_minor ''2'' ''1''), (CHR ''m'', Unversioned), (CHR ''a'', Major ''2''),
      (CHR ''p'', Unversioned), (CHR ''h'', Unversioned)] \<and>
   undelimited
     [(CHR ''i'', Major_minor ''2'' ''1''), (CHR ''m'', Unversioned), (CHR ''a'', Major ''2''),
      (CHR ''p'', Unversioned), (CHR ''h'', Unversioned)] = ''i2p1ma2ph'' \<and>
   delimited
     [(CHR ''i'', Major_minor ''2'' ''1''), (CHR ''m'', Unversioned), (CHR ''a'', Major ''2''),
      (CHR ''p'', Unversioned), (CHR ''h'', Unversioned)] = ''i2p1_m_a2_p_h'' \<and>
   this_isa (parse_hart CONFIG_64BIT (''rv64'' @ ''i2p1ma2ph'') []) =
     this_isa (parse_hart CONFIG_64BIT (''rv64'' @ ''i2p1_m_a2_p_h'') []) \<and>
   this_hwcap (parse_hart CONFIG_64BIT (''rv64'' @ ''i2p1ma2ph'') []) =
     this_hwcap (parse_hart CONFIG_64BIT (''rv64'' @ ''i2p1_m_a2_p_h'') [])"
proof -
  let ?ts = "[(CHR ''i'', Major_minor ''2'' ''1''), (CHR ''m'', Unversioned),
      (CHR ''a'', Major ''2''), (CHR ''p'', Unversioned), (CHR ''h'', Unversioned)]"
  have w: "list_all single_letter_token ?ts" by code_simp
  have u: "unambiguous ?ts" by simp
  have a: "undelimited ?ts = ''i2p1ma2ph''" by (simp add: token_text_def)
  have b: "delimited ?ts = ''i2p1_m_a2_p_h''" by (simp add: token_text_def)
  from delimiters_between_letter_tokens[of ?ts _ "[]"] w u
  have "this_isa (parse_hart CONFIG_64BIT (''rv64'' @ undelimited ?ts) []) =
          this_isa (parse_hart CONFIG_64BIT (''rv64'' @ delimited ?ts) []) \<and>
        this_hwcap (parse_hart CONFIG_64BIT (''rv64'' @ undelimited ?ts) []) =
          this_hwcap (parse_hart CONFIG_64BIT (''rv64'' @ delimited ?ts) [])"
    by blast
  with w u a b show ?thesis by (simp only: simp_thms)
qed

text \<open>
  C8 as stated fails for versioned tokens: the tokens \<open>i2\<close> and \<open>p3\<close> written without
  a delimiter read as the single token \<open>i\<close> with version 2.3, so the bit of \<open>p\<close> is set
  only in the delimited form.
\<close>

theorem versioned_token_before_p:
  "list_all single_letter_token [(CHR ''i'', Major ''2''), (CHR ''p'', Major ''3'')] \<and>
   undelimited [(CHR ''i'', Major ''2''), (CHR ''p'', Major ''3'')] = ''i2p3'' \<and>
   delimited [(CHR ''i'', Major ''2''), (CHR ''p'', Major ''3'')] = ''i2_p3'' \<and>
   this_isa (parse_hart CONFIG_64BIT ''rv64i2p3'' []) = BIT_MASK 8 \<and>
   this_isa (parse_hart CONFIG_64BIT ''rv64i2_p3'' []) = BIT_MASK 8 OR BIT_MASK 15 \<and>
   this_isa (parse_hart CONFIG_64BIT ''rv64i2p3'' []) \<noteq>
     this_isa (parse_hart CONFIG_64BIT ''rv64i2_p3'' [])"
  by code_simp

subsection \<open>Malformed tokens\<close>

lemma long_token_bad_char:
  assumes c: "c = CHR ''s'' \<or> c = CHR ''x'' \<or> c = CHR ''z''"
    and run: "list_all (\<lambda>x. x \<noteq> NUL \<and> x \<noteq> CHR ''_'') run"
    and rest: "peek rest 0 = NUL \<or> peek rest 0 = CHR ''_''"
    and bad: "list_ex (\<lambda>x. \<not> islower x \<and> \<not> isdigit x) run"
  shows "ext_err (scan_ext (c # run @ rest)) \<and>
         isa_off (scan_ext (c # run @ rest)) = Suc (length run) \<and>
         parse_isa (c # run @ rest) st = parse_isa (after_delimiter rest) st"
proof -
  let ?s = "c # run @ rest"
  have p0: "peek ?s 0 = c" by (simp add: peek_Cons_0)
  have nn: "peek ?s 0 \<noteq> NUL" using c islower_sxz islower_not_NUL by (simp add: p0)
  have "long_run ([c] @ run @ rest) (length [c]) False =
        (length [c] + length run, False \<or> list_ex (\<lambda>x. \<not> islower x \<and> \<not> isdigit x) run)"
    using run rest by (rule long_run_append)
  then have lr: "long_run ?s (Suc 0) False = (Suc (length run), True)"
    using bad by simp
  have sc: "scan_ext ?s = scan_long ?s" using c by (simp add: scan_ext_def p0)
  have t: "ext_err (scan_ext ?s) \<and> isa_off (scan_ext ?s) = Suc (length run)"
    by (simp add: sc scan_long_def lr)
  have pk: "peek ?s (Suc (length run)) = peek rest 0"
    by (simp add: peek_Cons_Suc peek_append)
  have nx: "drop (next_isa ?s) ?s = after_delimiter rest"
    by (simp add: next_isa_def t pk after_delimiter_def)
  have rec: "record_ext ?s (scan_ext ?s) st = st" using t by (simp add: record_ext_def)
  have "parse_isa ?s st = parse_isa (after_delimiter rest) st"
    using nn by (subst parse_isa.simps) (simp only: rec nx if_False)
  with t show ?thesis by simp
qed

lemma short_token_overflow:
  assumes l: "islower (peek s 0)"
    and n: "peek s 0 \<noteq> CHR ''s'' \<and> peek s 0 \<noteq> CHR ''x'' \<and> peek s 0 \<noteq> CHR ''z''"
    and o: "decimal_part_to_uint s 1 = Inl ERANGE"
  shows "ext_err_ver (scan_ext s) \<and> \<not> ext_err (scan_ext s)"
proof -
  have sc: "scan_ext s = scan_short s" using n by (simp add: scan_ext_def)
  have d: "isdigit (peek s 1)"
    using o by (auto simp: decimal_part_to_uint_def split: if_splits)
  have "ext_err_ver (scan_short s)"
    using l d o by (simp add: scan_short_def Let_def split: sum.splits)
  then show ?thesis using l by (simp add: sc scan_short_flags)
qed

lemma long_token_no_bits:
  "ext_long (scan_ext s) \<Longrightarrow>
   this_hwcap (record_ext s (scan_ext s) st) = this_hwcap st \<and>
   this_isa (record_ext s (scan_ext s) st) = this_isa st"
proof -
  assume a: "ext_long (scan_ext s)"
  then have "peek s 0 = CHR ''s'' \<or> peek s 0 = CHR ''x'' \<or> peek s 0 = CHR ''z''"
    by (auto simp: scan_ext_def scan_short_flags split: if_splits)
  then have "isa2hwcap (peek s 0) = 0" by (elim disjE; simp add: isa2hwcap_def)
  with a show ?thesis by (simp add: record_ext_hwcap record_ext_isa)
qed

lemma parse_isa_step:
  "peek s 0 \<noteq> NUL \<Longrightarrow>
   parse_isa s st = parse_isa (drop (next_isa s) s) (record_ext s (scan_ext s) st)"
  by (subst parse_isa.simps) simp

lemma isa_off_scan_long_eq:
  "isa_off (scan_long s) = fst (long_run s (Suc 0) False) \<and>
   ext_err (scan_long s) = snd (long_run s (Suc 0) False)"
  by (simp add: scan_long_def Let_def split: prod.splits sum.splits)

lemma back_digits_append:
  "list_all isdigit ds \<Longrightarrow> pre \<noteq> [] \<Longrightarrow> \<not> isdigit (last pre) \<Longrightarrow>
   back_digits (pre @ ds @ rest) (length pre + length ds) = length pre - 1"
proof (induction ds arbitrary: rest rule: rev_induct)
  case Nil
  then obtain n where n: "length pre = Suc n" by (cases pre) auto
  have "peek (pre @ rest) n = last pre"
    using Nil(2) n by (simp add: peek_append last_conv_nth)
  then show ?case using Nil(3) n by simp
next
  case (snoc d ds)
  from snoc.prems have d: "isdigit d" and ds: "list_all isdigit ds" by simp_all
  have "peek (pre @ (ds @ [d]) @ rest) (length pre + length ds) = d"
    by (simp add: peek_append nth_append peek_Cons_0)
  then have "back_digits (pre @ (ds @ [d]) @ rest) (Suc (length pre + length ds)) =
        back_digits (pre @ (ds @ [d]) @ rest) (length pre + length ds)"
    using d by simp
  also have "\<dots> = back_digits (pre @ ds @ ([d] @ rest)) (length pre + length ds)" by simp
  also have "\<dots> = length pre - 1" using snoc.IH[OF ds snoc.prems(2,3)] .
  finally show ?case by simp
qed

lemma scan_long_version_flags:
  assumes "long_run s (Suc 0) False = (e0, False)"
    and "isdigit (peek s (e0 - Suc 0))"
    and "back_digits s e0 = e1"
  shows "\<not> ext_err (scan_long s) \<and>
     ext_err_ver (scan_long s) =
       (if \<not> (peek s e1 = CHR ''p'' \<and> isdigit (peek s (e1 - Suc 0)))
        then (case decimal_part_to_uint s (Suc e1) of Inl _ \<Rightarrow> True | Inr _ \<Rightarrow> False)
        else (case decimal_part_to_uint s (Suc (back_digits s e1)) of
                Inl _ \<Rightarrow> True
              | Inr v \<Rightarrow> (case decimal_part_to_uint s (Suc e1) of
                            Inl _ \<Rightarrow> True | Inr _ \<Rightarrow> False) \<or> v = UINT_MAX))"
  by (simp add: scan_long_def assms Let_def split: sum.splits)

lemma long_token_consumed:
  assumes c: "c = CHR ''s'' \<or> c = CHR ''x'' \<or> c = CHR ''z''"
    and run: "list_all (\<lambda>x. x \<noteq> NUL \<and> x \<noteq> CHR ''_'') run"
    and rest: "peek rest 0 = NUL \<or> peek rest 0 = CHR ''_''"
  shows "isa_off (scan_ext (c # run @ rest)) = Suc (length run) \<and>
         ext_long (scan_ext (c # run @ rest)) \<and>
         ext_err (scan_ext (c # run @ rest)) =
           list_ex (\<lambda>x. \<not> islower x \<and> \<not> isdigit x) run \<and>
         parse_isa (c # run @ rest) st =
           parse_isa (after_delimiter rest)
             (record_ext (c # run @ rest) (scan_ext (c # run @ rest)) st) \<and>
         this_hwcap (record_ext (c # run @ rest) (scan_ext (c # run @ rest)) st) =
           this_hwcap st \<and>
         this_isa (record_ext (c # run @ rest) (scan_ext (c # run @ rest)) st) = this_isa st"
proof -
  let ?s = "c # run @ rest"
  have p0: "peek ?s 0 = c" by (simp add: peek_Cons_0)
  have nn: "peek ?s 0 \<noteq> NUL" using c islower_sxz islower_not_NUL by (simp add: p0)
  have "long_run ([c] @ run @ rest) (length [c]) False =
        (length [c] + length run, False \<or> list_ex (\<lambda>x. \<not> islower x \<and> \<not> isdigit x) run)"
    using run rest by (rule long_run_append)
  then have lr: "long_run ?s (Suc 0) False =
      (Suc (length run), list_ex (\<lambda>x. \<not> islower x \<and> \<not> isdigit x) run)"
    by simp
  have sc: "scan_ext ?s = scan_long ?s" using c by (simp add: scan_ext_def p0)
  have t: "isa_off (scan_ext ?s) = Suc (length run) \<and>
           ext_err (scan_ext ?s) = list_ex (\<lambda>x. \<not> islower x \<and> \<not> isdigit x) run"
    using isa_off_scan_long_eq[of ?s] by (simp add: sc lr)
  have lg: "ext_long (scan_ext ?s)" by (simp add: sc scan_long_flags)
  have pk: "peek ?s (Suc (length run)) = peek rest 0"
    by (simp add: peek_Cons_Suc peek_append)
  have nx: "drop (next_isa ?s) ?s = after_delimiter rest"
    by (simp add: next_isa_def t pk after_delimiter_def)
  have ps: "parse_isa ?s st =
      parse_isa (after_delimiter rest) (record_ext ?s (scan_ext ?s) st)"
    using parse_isa_step[OF nn, of st] by (simp only: nx)
  from t lg ps long_token_no_bits[OF lg, of st] show ?thesis by simp
qed

lemma lower_or_digit_run:
  "list_all (\<lambda>x. islower x \<or> isdigit x) xs \<Longrightarrow>
   list_all (\<lambda>x. x \<noteq> NUL \<and> x \<noteq> CHR ''_'') xs \<and>
   \<not> list_ex (\<lambda>x. \<not> islower x \<and> \<not> isdigit x) xs"
proof (induction xs)
  case Nil
  then show ?case by simp
next
  case (Cons x xs)
  from Cons.prems have "islower x \<or> isdigit x" by simp
  then have "x \<noteq> NUL \<and> x \<noteq> CHR ''_''"
    using islower_not_NUL islower_not_delim isdigit_not_NUL by (auto simp: isdigit_def)
  with Cons show ?case by simp
qed

lemma digits_lower_or_digit: "list_all isdigit ds \<Longrightarrow> list_all (\<lambda>x. islower x \<or> isdigit x) ds"
  by (induction ds) simp_all

lemma peek_last_of_prefix: "pre \<noteq> [] \<Longrightarrow> peek (pre @ r) (length pre - 1) = last pre"
  by (simp add: peek_append last_conv_nth)

lemma digit_run_last: "digit_run ds \<Longrightarrow> ds \<noteq> [] \<and> list_all isdigit ds \<and> isdigit (last ds)"
  by (auto simp: digit_run_def list_all_iff)

lemma long_token_version_overflow:
  assumes c: "c = CHR ''s'' \<or> c = CHR ''x'' \<or> c = CHR ''z''"
    and name: "list_all (\<lambda>x. islower x \<or> isdigit x) name"
    and nd: "\<not> isdigit (last (c # name))" and np: "last (c # name) \<noteq> CHR ''p''"
    and ds: "digit_run ds"
    and rest: "peek rest 0 = NUL \<or> peek rest 0 = CHR ''_''"
    and o: "decimal_part_to_uint (c # name @ ds @ rest) (Suc (length name)) = Inl e"
  shows "ext_err_ver (scan_ext (c # name @ ds @ rest)) \<and>
         \<not> ext_err (scan_ext (c # name @ ds @ rest))"
proof -
  let ?s = "c # name @ ds @ rest"
  from digit_run_last[OF ds] have dne: "ds \<noteq> []" and dall: "list_all isdigit ds"
    and dl: "isdigit (last ds)" by simp_all
  have p0: "peek ?s 0 = c" by (simp add: peek_Cons_0)
  have sc: "scan_ext ?s = scan_long ?s" using c by (simp add: scan_ext_def p0)
  have run: "list_all (\<lambda>x. islower x \<or> isdigit x) (name @ ds)"
    using name digits_lower_or_digit[OF dall] by simp
  have "long_run ([c] @ (name @ ds) @ rest) (length [c]) False =
        (length [c] + length (name @ ds),
         False \<or> list_ex (\<lambda>x. \<not> islower x \<and> \<not> isdigit x) (name @ ds))"
    using lower_or_digit_run[OF run] rest by (intro long_run_append) simp_all
  then have lr: "long_run ?s (Suc 0) False = (Suc (length name + length ds), False)"
    using lower_or_digit_run[OF run] by simp
  have "peek (((c # name) @ ds) @ rest) (length ((c # name) @ ds) - 1) = last ((c # name) @ ds)"
    by (rule peek_last_of_prefix) simp
  then have pe: "isdigit (peek ?s (Suc (length name + length ds) - Suc 0))"
    using dne dl by simp
  have "back_digits ((c # name) @ ds @ rest) (length (c # name) + length ds) =
        length (c # name) - 1"
    using dall nd by (intro back_digits_append) simp_all
  then have bd: "back_digits ?s (Suc (length name + length ds)) = length name" by simp
  have "peek ((c # name) @ (ds @ rest)) (length (c # name) - 1) = last (c # name)"
    by (rule peek_last_of_prefix) simp
  then have pl: "peek ?s (length name) = last (c # name)" by simp
  from scan_long_version_flags[OF lr pe bd] np o show ?thesis
    by (simp add: sc pl)
qed

lemma long_token_invalid_pair:
  assumes c: "c = CHR ''s'' \<or> c = CHR ''x'' \<or> c = CHR ''z''"
    and name: "list_all (\<lambda>x. islower x \<or> isdigit x) name"
    and nd: "\<not> isdigit (last (c # name))"
    and a: "digit_run a" and b: "digit_run b"
    and rest: "peek rest 0 = NUL \<or> peek rest 0 = CHR ''_''"
    and o: "decimal_part_to_uint (c # name @ a @ CHR ''p'' # b @ rest) (Suc (length name)) =
              Inr UINT_MAX \<or>
            decimal_part_to_uint (c # name @ a @ CHR ''p'' # b @ rest) (Suc (length name)) =
              Inl e"
  shows "ext_err_ver (scan_ext (c # name @ a @ CHR ''p'' # b @ rest)) \<and>
         \<not> ext_err (scan_ext (c # name @ a @ CHR ''p'' # b @ rest))"
proof -
  let ?s = "c # name @ a @ CHR ''p'' # b @ rest"
  let ?run = "name @ a @ CHR ''p'' # b"
  from digit_run_last[OF a] have ane: "a \<noteq> []" and aall: "list_all isdigit a"
    and al: "isdigit (last a)" by simp_all
  from digit_run_last[OF b] have bne: "b \<noteq> []" and ball: "list_all isdigit b"
    and bl: "isdigit (last b)" by simp_all
  have p0: "peek ?s 0 = c" by (simp add: peek_Cons_0)
  have sc: "scan_ext ?s = scan_long ?s" using c by (simp add: scan_ext_def p0)
  have lp: "islower (CHR ''p'')" by (simp add: islower_def)
  have run: "list_all (\<lambda>x. islower x \<or> isdigit x) ?run"
    using name digits_lower_or_digit[OF aall] digits_lower_or_digit[OF ball] lp by simp
  have "long_run ([c] @ ?run @ rest) (length [c]) False =
        (length [c] + length ?run,
         False \<or> list_ex (\<lambda>x. \<not> islower x \<and> \<not> isdigit x) ?run)"
    using lower_or_digit_run[OF run] rest by (intro long_run_append) simp_all
  then have lr: "long_run ?s (Suc 0) False =
      (Suc (Suc (length name + length a + length b)), False)"
    using lower_or_digit_run[OF run] by simp
  let ?pre = "c # name @ a @ [CHR ''p'']"
  have "peek ((?pre @ b) @ rest) (length (?pre @ b) - 1) = last (?pre @ b)"
    by (rule peek_last_of_prefix) simp
  then have pe: "isdigit (peek ?s (Suc (Suc (length name + length a + length b)) - Suc 0))"
    using bne bl by (simp add: add.assoc)
  have "back_digits (?pre @ b @ rest) (length ?pre + length b) = length ?pre - 1"
    using ball by (intro back_digits_append) simp_all
  then have bd: "back_digits ?s (Suc (Suc (length name + length a + length b))) =
      Suc (length name + length a)" by simp
  have "peek (?pre @ (b @ rest)) (length ?pre - 1) = last ?pre"
    by (rule peek_last_of_prefix) simp
  then have pp: "peek ?s (Suc (length name + length a)) = CHR ''p''" by simp
  have "peek (((c # name) @ a) @ (CHR ''p'' # b @ rest)) (length ((c # name) @ a) - 1) =
        last ((c # name) @ a)"
    by (rule peek_last_of_prefix) simp
  then have pa: "isdigit (peek ?s (Suc (length name + length a) - Suc 0))"
    using ane al by simp
  have "back_digits ((c # name) @ a @ (CHR ''p'' # b @ rest)) (length (c # name) + length a) =
        length (c # name) - 1"
    using aall nd by (intro back_digits_append) simp_all
  then have bd2: "back_digits ?s (Suc (length name + length a)) = length name" by simp
  have bd2': "back_digits ?s (length name + length a) = length name"
    using bd2 pa by simp
  from scan_long_version_flags[OF lr pe bd] pp pa o show ?thesis
    by (auto simp: sc bd2' split: sum.splits)
qed

text \<open>
  C2, as the code has it. A namespaced token (first character \<open>s\<close>, \<open>x\<close> or \<open>z\<close>)
  whose run up to the next \<open>_\<close> or the end holds a character that is neither a
  lowercase letter nor a digit is rejected: it changes nothing, the whole run is consumed
  and the scan goes on behind the delimiter. A single-letter token followed by any
  version digits, an overflowing numeral included, is consumed and records its letter as
  if it had no version; an overflowing major version sets only the flag \<open>ext_err_ver\<close>,
  not \<open>ext_err\<close>. In general every iteration goes on with the rest of the string at
  least one character further; a rejected token (\<open>ext_err\<close>) leaves the state as it
  was; a token that is not rejected contributes its bits whatever \<open>ext_err_ver\<close> says,
  and a namespaced token contributes no bit at all. Every namespaced token, malformed or
  not, is consumed whole: the cursor ends on the delimiter or the end of the string
  behind its run, the scan goes on behind that delimiter, and neither the capability word
  nor the ISA bitmap changes. This holds in particular for a namespaced token whose
  version overflows (a name that ends in a letter other than \<open>p\<close>, then digits whose
  value does not fit), and for one whose major/minor pair is invalid (the major numeral
  is \<open>UINT_MAX\<close> or overflows, then \<open>p\<close> and the minor digits): both set only
  \<open>ext_err_ver\<close>, not \<open>ext_err\<close>, and the run is consumed up to its end, version
  digits included.
\<close>

theorem malformed_tokens_absorbed:
  "((c = CHR ''s'' \<or> c = CHR ''x'' \<or> c = CHR ''z'') \<and>
    list_all (\<lambda>x. x \<noteq> NUL \<and> x \<noteq> CHR ''_'') run \<and>
    (peek rest 0 = NUL \<or> peek rest 0 = CHR ''_'') \<and>
    list_ex (\<lambda>x. \<not> islower x \<and> \<not> isdigit x) run \<longrightarrow>
      ext_err (scan_ext (c # run @ rest)) \<and>
      parse_isa (c # run @ rest) st = parse_isa (after_delimiter rest) st) \<and>
   (single_letter_token (l, v) \<and> may_follow v rest \<longrightarrow>
      parse_isa (token_text (l, v) @ rest) st =
        parse_isa (after_delimiter rest) (letter_effect l st)) \<and>
   (islower (peek s 0) \<and>
    peek s 0 \<noteq> CHR ''s'' \<and> peek s 0 \<noteq> CHR ''x'' \<and> peek s 0 \<noteq> CHR ''z'' \<and>
    decimal_part_to_uint s 1 = Inl ERANGE \<longrightarrow>
      ext_err_ver (scan_ext s) \<and> \<not> ext_err (scan_ext s)) \<and>
   (peek s 0 \<noteq> NUL \<longrightarrow>
      parse_isa s st = parse_isa (drop (next_isa s) s) (record_ext s (scan_ext s) st) \<and>
      1 \<le> next_isa s \<and> next_isa s \<le> length s \<and>
      (ext_err (scan_ext s) \<longrightarrow> record_ext s (scan_ext s) st = st) \<and>
      (\<not> ext_err (scan_ext s) \<longrightarrow>
         this_hwcap (record_ext s (scan_ext s) st) = this_hwcap st OR isa2hwcap (peek s 0) \<and>
         this_isa (record_ext s (scan_ext s) st) =
           (if ext_long (scan_ext s) then this_isa st
            else this_isa st OR push_bit (of_char (peek s 0) - of_char (CHR ''a'')) 1)) \<and>
      (ext_long (scan_ext s) \<longrightarrow>
         this_hwcap (record_ext s (scan_ext s) st) = this_hwcap st \<and>
         this_isa (record_ext s (scan_ext s) st) = this_isa st)) \<and>
   ((c = CHR ''s'' \<or> c = CHR ''x'' \<or> c = CHR ''z'') \<and>
    list_all (\<lambda>x. x \<noteq> NUL \<and> x \<noteq> CHR ''_'') run \<and>
    (peek rest 0 = NUL \<or> peek rest 0 = CHR ''_'') \<longrightarrow>
      isa_off (scan_ext (c # run @ rest)) = Suc (length run) \<and>
      parse_isa (c # run @ rest) st =
        parse_isa (after_delimiter rest)
          (record_ext (c # run @ rest) (scan_ext (c # run @ rest)) st) \<and>
      this_hwcap (record_ext (c # run @ rest) (scan_ext (c # run @ rest)) st) =
        this_hwcap st \<and>
      this_isa (record_ext (c # run @ rest) (scan_ext (c # run @ rest)) st) = this_isa st) \<and>
   ((c = CHR ''s'' \<or> c = CHR ''x'' \<or> c = CHR ''z'') \<and>
    list_all (\<lambda>x. islower x \<or> isdigit x) name \<and>
    \<not> isdigit (last (c # name)) \<and> last (c # name) \<noteq> CHR ''p'' \<and>
    digit_run ds \<and>
    (peek rest 0 = NUL \<or> peek rest 0 = CHR ''_'') \<and>
    decimal_part_to_uint (c # name @ ds @ rest) (Suc (length name)) = Inl ERANGE \<longrightarrow>
      ext_err_ver (scan_ext (c # name @ ds @ rest)) \<and>
      \<not> ext_err (scan_ext (c # name @ ds @ rest)) \<and>
      isa_off (scan_ext (c # name @ ds @ rest)) = Suc (length name + length ds) \<and>
      parse_isa (c # name @ ds @ rest) st =
        parse_isa (after_delimiter rest)
          (record_ext (c # name @ ds @ rest) (scan_ext (c # name @ ds @ rest)) st) \<and>
      this_hwcap (record_ext (c # name @ ds @ rest) (scan_ext (c # name @ ds @ rest)) st) =
        this_hwcap st \<and>
      this_isa (record_ext (c # name @ ds @ rest) (scan_ext (c # name @ ds @ rest)) st) =
        this_isa st) \<and>
   ((c = CHR ''s'' \<or> c = CHR ''x'' \<or> c = CHR ''z'') \<and>
    list_all (\<lambda>x. islower x \<or> isdigit x) name \<and>
    \<not> isdigit (last (c # name)) \<and>
    digit_run a \<and> digit_run b \<and>
    (peek rest 0 = NUL \<or> peek rest 0 = CHR ''_'') \<and>
    (decimal_part_to_uint (c # name @ a @ CHR ''p'' # b @ rest) (Suc (length name)) =
       Inr UINT_MAX \<or>
     decimal_part_to_uint (c # name @ a @ CHR ''p'' # b @ rest) (Suc (length name)) =
       Inl ERANGE) \<longrightarrow>
      ext_err_ver (scan_ext (c # name @ a @ CHR ''p'' # b @ rest)) \<and>
      \<not> ext_err (scan_ext (c # name @ a @ CHR ''p'' # b @ rest)) \<and>
      isa_off (scan_ext (c # name @ a @ CHR ''p'' # b @ rest)) =
        Suc (length name + length a + 1 + length b) \<and>
      parse_isa (c # name @ a @ CHR ''p'' # b @ rest) st =
        parse_isa (after_delimiter rest)
          (record_ext (c # name @ a @ CHR ''p'' # b @ rest)
             (scan_ext (c # name @ a @ CHR ''p'' # b @ rest)) st) \<and>
      this_hwcap (record_ext (c # name @ a @ CHR ''p'' # b @ rest)
          (scan_ext (c # name @ a @ CHR ''p'' # b @ rest)) st) = this_hwcap st \<and>
      this_isa (record_ext (c # name @ a @ CHR ''p'' # b @ rest)
          (scan_ext (c # name @ a @ CHR ''p'' # b @ rest)) st) = this_isa st)"
proof -
  have a: "ext_err (scan_ext (c # run @ rest)) \<and>
      parse_isa (c # run @ rest) st = parse_isa (after_delimiter rest) st"
    if "c = CHR ''s'' \<or> c = CHR ''x'' \<or> c = CHR ''z''"
      "list_all (\<lambda>x. x \<noteq> NUL \<and> x \<noteq> CHR ''_'') run"
      "peek rest 0 = NUL \<or> peek rest 0 = CHR ''_''"
      "list_ex (\<lambda>x. \<not> islower x \<and> \<not> isdigit x) run"
    using long_token_bad_char[OF that, of st] by simp
  have b: "parse_isa (token_text (l, v) @ rest) st =
        parse_isa (after_delimiter rest) (letter_effect l st)"
    if "single_letter_token (l, v)" "may_follow v rest"
    using that by (rule parse_letter_token)
  have c: "ext_err_ver (scan_ext s) \<and> \<not> ext_err (scan_ext s)"
    if "islower (peek s 0)"
      "peek s 0 \<noteq> CHR ''s'' \<and> peek s 0 \<noteq> CHR ''x'' \<and> peek s 0 \<noteq> CHR ''z''"
      "decimal_part_to_uint s 1 = Inl ERANGE"
    using that by (rule short_token_overflow)
  have d1: "parse_isa s st = parse_isa (drop (next_isa s) s) (record_ext s (scan_ext s) st) \<and>
      1 \<le> next_isa s \<and> next_isa s \<le> length s" if "peek s 0 \<noteq> NUL"
    using parse_isa_step[OF that, of st] next_isa_bounds[OF that] by simp
  have d2: "ext_err (scan_ext s) \<longrightarrow> record_ext s (scan_ext s) st = st"
    by (simp add: record_ext_def)
  have d3: "\<not> ext_err (scan_ext s) \<longrightarrow>
         this_hwcap (record_ext s (scan_ext s) st) = this_hwcap st OR isa2hwcap (peek s 0) \<and>
         this_isa (record_ext s (scan_ext s) st) =
           (if ext_long (scan_ext s) then this_isa st
            else this_isa st OR push_bit (of_char (peek s 0) - of_char (CHR ''a'')) 1)"
    by (simp add: record_ext_hwcap record_ext_isa)
  have d4: "ext_long (scan_ext s) \<longrightarrow>
         this_hwcap (record_ext s (scan_ext s) st) = this_hwcap st \<and>
         this_isa (record_ext s (scan_ext s) st) = this_isa st"
    using long_token_no_bits[of s st] by blast
  have n1: "isa_off (scan_ext (c # run' @ rest)) = Suc (length run') \<and>
      parse_isa (c # run' @ rest) st =
        parse_isa (after_delimiter rest)
          (record_ext (c # run' @ rest) (scan_ext (c # run' @ rest)) st) \<and>
      this_hwcap (record_ext (c # run' @ rest) (scan_ext (c # run' @ rest)) st) =
        this_hwcap st \<and>
      this_isa (record_ext (c # run' @ rest) (scan_ext (c # run' @ rest)) st) = this_isa st"
    if "c = CHR ''s'' \<or> c = CHR ''x'' \<or> c = CHR ''z''"
      "list_all (\<lambda>x. x \<noteq> NUL \<and> x \<noteq> CHR ''_'') run'"
      "peek rest 0 = NUL \<or> peek rest 0 = CHR ''_''" for run'
    using long_token_consumed[OF that, of st] by simp
  have n2: "ext_err_ver (scan_ext (c # name @ ds @ rest)) \<and>
      \<not> ext_err (scan_ext (c # name @ ds @ rest)) \<and>
      isa_off (scan_ext (c # name @ ds @ rest)) = Suc (length name + length ds) \<and>
      parse_isa (c # name @ ds @ rest) st =
        parse_isa (after_delimiter rest)
          (record_ext (c # name @ ds @ rest) (scan_ext (c # name @ ds @ rest)) st) \<and>
      this_hwcap (record_ext (c # name @ ds @ rest) (scan_ext (c # name @ ds @ rest)) st) =
        this_hwcap st \<and>
      this_isa (record_ext (c # name @ ds @ rest) (scan_ext (c # name @ ds @ rest)) st) =
        this_isa st"
    if h: "c = CHR ''s'' \<or> c = CHR ''x'' \<or> c = CHR ''z''"
      "list_all (\<lambda>x. islower x \<or> isdigit x) name"
      "\<not> isdigit (last (c # name))" "last (c # name) \<noteq> CHR ''p''"
      "digit_run ds"
      "peek rest 0 = NUL \<or> peek rest 0 = CHR ''_''"
      "decimal_part_to_uint (c # name @ ds @ rest) (Suc (length name)) = Inl ERANGE"
  proof -
    have "list_all (\<lambda>x. islower x \<or> isdigit x) (name @ ds)"
      using h(2) digits_lower_or_digit digit_run_last[OF h(5)] by simp
    then have ok: "list_all (\<lambda>x. x \<noteq> NUL \<and> x \<noteq> CHR ''_'') (name @ ds)"
      using lower_or_digit_run by blast
    from n1[OF h(1) ok h(6)] long_token_version_overflow[OF h] show ?thesis by simp
  qed
  have n3: "ext_err_ver (scan_ext (c # name @ a @ CHR ''p'' # b @ rest)) \<and>
      \<not> ext_err (scan_ext (c # name @ a @ CHR ''p'' # b @ rest)) \<and>
      isa_off (scan_ext (c # name @ a @ CHR ''p'' # b @ rest)) =
        Suc (length name + length a + 1 + length b) \<and>
      parse_isa (c # name @ a @ CHR ''p'' # b @ rest) st =
        parse_isa (after_delimiter rest)
          (record_ext (c # name @ a @ CHR ''p'' # b @ rest)
             (scan_ext (c # name @ a @ CHR ''p'' # b @ rest)) st) \<and>
      this_hwcap (record_ext (c # name @ a @ CHR ''p'' # b @ rest)
          (scan_ext (c # name @ a @ CHR ''p'' # b @ rest)) st) = this_hwcap st \<and>
      this_isa (record_ext (c # name @ a @ CHR ''p'' # b @ rest)
          (scan_ext (c # name @ a @ CHR ''p'' # b @ rest)) st) = this_isa st"
    if h: "c = CHR ''s'' \<or> c = CHR ''x'' \<or> c = CHR ''z''"
      "list_all (\<lambda>x. islower x \<or> isdigit x) name"
      "\<not> isdigit (last (c # name))"
      "digit_run a" "digit_run b"
      "peek rest 0 = NUL \<or> peek rest 0 = CHR ''_''"
      "decimal_part_to_uint (c # name @ a @ CHR ''p'' # b @ rest) (Suc (length name)) =
         Inr UINT_MAX \<or>
       decimal_part_to_uint (c # name @ a @ CHR ''p'' # b @ rest) (Suc (length name)) =
         Inl ERANGE"
  proof -
    have lp: "islower (CHR ''p'')" by (simp add: islower_def)
    have "list_all (\<lambda>x. islower x \<or> isdigit x) (name @ a @ CHR ''p'' # b)"
      using h(2) digits_lower_or_digit digit_run_last[OF h(4)] digit_run_last[OF h(5)] lp
      by simp
    then have ok: "list_all (\<lambda>x. x \<noteq> NUL \<and> x \<noteq> CHR ''_'') (name @ a @ CHR ''p'' # b)"
      using lower_or_digit_run by blast
    from n1[OF h(1) ok h(6)] long_token_invalid_pair[OF h] show ?thesis by simp
  qed
  from a b c d1 d2 d3 d4 n1[of run] n2 n3 show ?thesis by blast
qed

theorem malformed_tokens_absorbed_witness:
  "list_all (\<lambda>x. x \<noteq> NUL \<and> x \<noteq> CHR ''_'') ''FOO'' \<and>
   peek ''_zba'' 0 = CHR ''_'' \<and>
   list_ex (\<lambda>x. \<not> islower x \<and> \<not> isdigit x) ''FOO'' \<and>
   ext_err (scan_ext (CHR ''z'' # ''FOO'' @ ''_zba'')) \<and>
   parse_isa (CHR ''z'' # ''FOO'' @ ''_zba'') \<lparr>this_hwcap = 0, this_isa = 0, hart_log = []\<rparr> =
     parse_isa (after_delimiter ''_zba'') \<lparr>this_hwcap = 0, this_isa = 0, hart_log = []\<rparr> \<and>
   single_letter_token (CHR ''i'', Major ''4294967296'') \<and>
   may_follow (Major ''4294967296'') ''_zba'' \<and>
   parse_isa (token_text (CHR ''i'', Major ''4294967296'') @ ''_zba'')
       \<lparr>this_hwcap = 0, this_isa = 0, hart_log = []\<rparr> =
     parse_isa (after_delimiter ''_zba'')
       (letter_effect (CHR ''i'') \<lparr>this_hwcap = 0, this_isa = 0, hart_log = []\<rparr>) \<and>
   islower (peek ''i4294967296'' 0) \<and>
   decimal_part_to_uint ''i4294967296'' 1 = Inl ERANGE \<and>
   ext_err_ver (scan_ext ''i4294967296'') \<and> \<not> ext_err (scan_ext ''i4294967296'') \<and>
   peek ''i4294967296'' 0 \<noteq> NUL \<and>
   1 \<le> next_isa ''i4294967296'' \<and> next_isa ''i4294967296'' \<le> length ''i4294967296'' \<and>
   this_hwcap (record_ext ''i4294967296'' (scan_ext ''i4294967296'')
       \<lparr>this_hwcap = 0, this_isa = 0, hart_log = []\<rparr>) =
     0 OR isa2hwcap (peek ''i4294967296'' 0) \<and>
   isa_off (scan_ext (CHR ''z'' # ''FOO'' @ ''_zba'')) = Suc (length ''FOO'') \<and>
   list_all (\<lambda>x. islower x \<or> isdigit x) ''ba'' \<and>
   \<not> isdigit (last (CHR ''z'' # ''ba'')) \<and> last (CHR ''z'' # ''ba'') \<noteq> CHR ''p'' \<and>
   digit_run ''4294967296'' \<and>
   decimal_part_to_uint (CHR ''z'' # ''ba'' @ ''4294967296'' @ ''_zba'') (Suc (length ''ba'')) =
     Inl ERANGE \<and>
   ext_err_ver (scan_ext (CHR ''z'' # ''ba'' @ ''4294967296'' @ ''_zba'')) \<and>
   \<not> ext_err (scan_ext (CHR ''z'' # ''ba'' @ ''4294967296'' @ ''_zba'')) \<and>
   isa_off (scan_ext (CHR ''z'' # ''ba'' @ ''4294967296'' @ ''_zba'')) =
     Suc (length ''ba'' + length ''4294967296'') \<and>
   parse_isa (CHR ''z'' # ''ba'' @ ''4294967296'' @ ''_zba'')
       \<lparr>this_hwcap = 0, this_isa = 0, hart_log = []\<rparr> =
     parse_isa (after_delimiter ''_zba'')
       (record_ext (CHR ''z'' # ''ba'' @ ''4294967296'' @ ''_zba'')
          (scan_ext (CHR ''z'' # ''ba'' @ ''4294967296'' @ ''_zba''))
          \<lparr>this_hwcap = 0, this_isa = 0, hart_log = []\<rparr>) \<and>
   this_hwcap (record_ext (CHR ''z'' # ''ba'' @ ''4294967296'' @ ''_zba'')
          (scan_ext (CHR ''z'' # ''ba'' @ ''4294967296'' @ ''_zba''))
          \<lparr>this_hwcap = 0, this_isa = 0, hart_log = []\<rparr>) = 0 \<and>
   this_isa (record_ext (CHR ''z'' # ''ba'' @ ''4294967296'' @ ''_zba'')
          (scan_ext (CHR ''z'' # ''ba'' @ ''4294967296'' @ ''_zba''))
          \<lparr>this_hwcap = 0, this_isa = 0, hart_log = []\<rparr>) = 0 \<and>
   digit_run ''4294967295'' \<and> digit_run ''1'' \<and>
   decimal_part_to_uint (CHR ''z'' # ''ba'' @ ''4294967295'' @ CHR ''p'' # ''1'' @ ''_zba'')
       (Suc (length ''ba'')) = Inr UINT_MAX \<and>
   ext_err_ver (scan_ext (CHR ''z'' # ''ba'' @ ''4294967295'' @ CHR ''p'' # ''1'' @ ''_zba'')) \<and>
   \<not> ext_err (scan_ext (CHR ''z'' # ''ba'' @ ''4294967295'' @ CHR ''p'' # ''1'' @ ''_zba'')) \<and>
   isa_off (scan_ext (CHR ''z'' # ''ba'' @ ''4294967295'' @ CHR ''p'' # ''1'' @ ''_zba'')) =
     Suc (length ''ba'' + length ''4294967295'' + 1 + length ''1'') \<and>
   parse_isa (CHR ''z'' # ''ba'' @ ''4294967295'' @ CHR ''p'' # ''1'' @ ''_zba'')
       \<lparr>this_hwcap = 0, this_isa = 0, hart_log = []\<rparr> =
     parse_isa (after_delimiter ''_zba'')
       (record_ext (CHR ''z'' # ''ba'' @ ''4294967295'' @ CHR ''p'' # ''1'' @ ''_zba'')
          (scan_ext (CHR ''z'' # ''ba'' @ ''4294967295'' @ CHR ''p'' # ''1'' @ ''_zba''))
          \<lparr>this_hwcap = 0, this_isa = 0, hart_log = []\<rparr>) \<and>
   this_hwcap (record_ext (CHR ''z'' # ''ba'' @ ''4294967295'' @ CHR ''p'' # ''1'' @ ''_zba'')
          (scan_ext (CHR ''z'' # ''ba'' @ ''4294967295'' @ CHR ''p'' # ''1'' @ ''_zba''))
          \<lparr>this_hwcap = 0, this_isa = 0, hart_log = []\<rparr>) = 0 \<and>
   this_isa (record_ext (CHR ''z'' # ''ba'' @ ''4294967295'' @ CHR ''p'' # ''1'' @ ''_zba'')
          (scan_ext (CHR ''z'' # ''ba'' @ ''4294967295'' @ CHR ''p'' # ''1'' @ ''_zba''))
          \<lparr>this_hwcap = 0, this_isa = 0, hart_log = []\<rparr>) = 0"
proof -
  let ?st = "\<lparr>this_hwcap = 0, this_isa = 0, hart_log = []\<rparr>"
  let ?O = "CHR ''z'' # ''ba'' @ ''4294967296'' @ ''_zba''"
  let ?P = "CHR ''z'' # ''ba'' @ ''4294967295'' @ CHR ''p'' # ''1'' @ ''_zba''"
  have z: "CHR ''z'' = CHR ''s'' \<or> CHR ''z'' = CHR ''x'' \<or> CHR ''z'' = CHR ''z''" by simp
  have h1: "list_all (\<lambda>x. x \<noteq> NUL \<and> x \<noteq> CHR ''_'') ''FOO''" by (simp add: NUL_def)
  have h2: "peek ''_zba'' 0 = CHR ''_''" by (simp add: peek_def)
  have h3: "list_ex (\<lambda>x. \<not> islower x \<and> \<not> isdigit x) ''FOO''" by code_simp
  have h4: "single_letter_token (CHR ''i'', Major ''4294967296'')" by code_simp
  have h5: "may_follow (Major ''4294967296'') ''_zba''" by code_simp
  have h6: "islower (peek ''i4294967296'' 0)" by code_simp
  have h7: "peek ''i4294967296'' 0 \<noteq> CHR ''s'' \<and> peek ''i4294967296'' 0 \<noteq> CHR ''x'' \<and>
            peek ''i4294967296'' 0 \<noteq> CHR ''z''" by (simp add: peek_def)
  have h8: "decimal_part_to_uint ''i4294967296'' 1 = Inl ERANGE" by code_simp
  have h9: "peek ''i4294967296'' 0 \<noteq> NUL" by (simp add: peek_def NUL_def)
  have k1: "list_all (\<lambda>x. islower x \<or> isdigit x) ''ba''" by code_simp
  have k2: "\<not> isdigit (last (CHR ''z'' # ''ba'')) \<and> last (CHR ''z'' # ''ba'') \<noteq> CHR ''p''"
    by code_simp
  have k3: "digit_run ''4294967296''" by code_simp
  have k4: "decimal_part_to_uint ?O (Suc (length ''ba'')) = Inl ERANGE" by code_simp
  have k5: "digit_run ''4294967295'' \<and> digit_run ''1''" by code_simp
  have k6: "decimal_part_to_uint ?P (Suc (length ''ba'')) = Inr UINT_MAX" by code_simp
  note th = malformed_tokens_absorbed[where c = "CHR ''z''" and run = "''FOO''"
      and rest = "''_zba''" and st = ?st and l = "CHR ''i''" and v = "Major ''4294967296''"
      and s = "''i4294967296''" and name = "''ba''" and ds = "''4294967296''"
      and a = "''4294967295''" and b = "''1''"]
  have h2': "peek ''_zba'' 0 = NUL \<or> peek ''_zba'' 0 = CHR ''_''" using h2 by simp
  note c1 = th[THEN conjunct1, THEN mp]
  note c2 = th[THEN conjunct2, THEN conjunct1, THEN mp]
  note c3 = th[THEN conjunct2, THEN conjunct2, THEN conjunct1, THEN mp]
  note c4 = th[THEN conjunct2, THEN conjunct2, THEN conjunct2, THEN conjunct1, THEN mp]
  note c5 = th[THEN conjunct2, THEN conjunct2, THEN conjunct2, THEN conjunct2,
      THEN conjunct1, THEN mp]
  note c6 = th[THEN conjunct2, THEN conjunct2, THEN conjunct2, THEN conjunct2,
      THEN conjunct2, THEN conjunct1, THEN mp]
  note c7 = th[THEN conjunct2, THEN conjunct2, THEN conjunct2, THEN conjunct2,
      THEN conjunct2, THEN conjunct2, THEN mp]
  have r1: "ext_err (scan_ext (CHR ''z'' # ''FOO'' @ ''_zba'')) \<and>
      parse_isa (CHR ''z'' # ''FOO'' @ ''_zba'') ?st = parse_isa (after_delimiter ''_zba'') ?st"
    by (rule c1) (intro conjI z h1 h2' h3)
  have r2: "parse_isa (token_text (CHR ''i'', Major ''4294967296'') @ ''_zba'') ?st =
     parse_isa (after_delimiter ''_zba'') (letter_effect (CHR ''i'') ?st)"
    by (rule c2) (intro conjI h4 h5)
  have r3: "ext_err_ver (scan_ext ''i4294967296'') \<and>
      \<not> ext_err (scan_ext ''i4294967296'')"
    by (rule c3) (intro conjI h6 h7[THEN conjunct1] h7[THEN conjunct2, THEN conjunct1]
        h7[THEN conjunct2, THEN conjunct2] h8)
  note d = c4[OF h9]
  note d5 = d[THEN conjunct2, THEN conjunct2, THEN conjunct2, THEN conjunct2,
      THEN conjunct1, THEN mp, OF r3[THEN conjunct2], THEN conjunct1]
  have r4: "1 \<le> next_isa ''i4294967296'' \<and>
      next_isa ''i4294967296'' \<le> length ''i4294967296'' \<and>
      this_hwcap (record_ext ''i4294967296'' (scan_ext ''i4294967296'') ?st) =
        this_hwcap ?st OR isa2hwcap (peek ''i4294967296'' 0)"
    by (intro conjI d[THEN conjunct2, THEN conjunct1]
        d[THEN conjunct2, THEN conjunct2, THEN conjunct1] d5)
  have sel: "this_hwcap ?st = 0" "this_isa ?st = 0" by simp_all
  have r5: "1 \<le> next_isa ''i4294967296'' \<and>
      next_isa ''i4294967296'' \<le> length ''i4294967296'' \<and>
      this_hwcap (record_ext ''i4294967296'' (scan_ext ''i4294967296'') ?st) =
        0 OR isa2hwcap (peek ''i4294967296'' 0)"
    using r4 unfolding sel .
  note e = c5[OF conjI[OF z conjI[OF h1 h2']]]
  have r6: "isa_off (scan_ext (CHR ''z'' # ''FOO'' @ ''_zba'')) = Suc (length ''FOO'')"
    by (rule e[THEN conjunct1])
  have r7: "ext_err_ver (scan_ext ?O) \<and> \<not> ext_err (scan_ext ?O) \<and>
      isa_off (scan_ext ?O) = Suc (length ''ba'' + length ''4294967296'') \<and>
      parse_isa ?O ?st = parse_isa (after_delimiter ''_zba'') (record_ext ?O (scan_ext ?O) ?st) \<and>
      this_hwcap (record_ext ?O (scan_ext ?O) ?st) = this_hwcap ?st \<and>
      this_isa (record_ext ?O (scan_ext ?O) ?st) = this_isa ?st"
    by (rule c6) (intro conjI z k1 k2[THEN conjunct1] k2[THEN conjunct2] k3 h2' k4)
  have r7': "ext_err_ver (scan_ext ?O) \<and> \<not> ext_err (scan_ext ?O) \<and>
      isa_off (scan_ext ?O) = Suc (length ''ba'' + length ''4294967296'') \<and>
      parse_isa ?O ?st = parse_isa (after_delimiter ''_zba'') (record_ext ?O (scan_ext ?O) ?st) \<and>
      this_hwcap (record_ext ?O (scan_ext ?O) ?st) = 0 \<and>
      this_isa (record_ext ?O (scan_ext ?O) ?st) = 0"
    using r7 unfolding sel .
  have r8: "ext_err_ver (scan_ext ?P) \<and> \<not> ext_err (scan_ext ?P) \<and>
      isa_off (scan_ext ?P) = Suc (length ''ba'' + length ''4294967295'' + 1 + length ''1'') \<and>
      parse_isa ?P ?st = parse_isa (after_delimiter ''_zba'') (record_ext ?P (scan_ext ?P) ?st) \<and>
      this_hwcap (record_ext ?P (scan_ext ?P) ?st) = this_hwcap ?st \<and>
      this_isa (record_ext ?P (scan_ext ?P) ?st) = this_isa ?st"
    by (rule c7) (intro conjI z k1 k2[THEN conjunct1] k5[THEN conjunct1] k5[THEN conjunct2]
        h2' disjI1 k6)
  have r8': "ext_err_ver (scan_ext ?P) \<and> \<not> ext_err (scan_ext ?P) \<and>
      isa_off (scan_ext ?P) = Suc (length ''ba'' + length ''4294967295'' + 1 + length ''1'') \<and>
      parse_isa ?P ?st = parse_isa (after_delimiter ''_zba'') (record_ext ?P (scan_ext ?P) ?st) \<and>
      this_hwcap (record_ext ?P (scan_ext ?P) ?st) = 0 \<and>
      this_isa (record_ext ?P (scan_ext ?P) ?st) = 0"
    using r8 unfolding sel .
  from h1 h2 h3 r1 h4 h5 r2 h6 h8 r3 h9 r5 r6 k1 k2 k3 k4 r7' k5 k6 r8'
  show ?thesis by (simp only: simp_thms)
qed

text \<open>
  C2 as stated fails for a version overflow: in \<open>rv64i4294967296\<close> the version of
  \<open>i\<close> overflows and is flagged, and the token still sets the ISA bit and the
  capability bit of \<open>i\<close>.
\<close>

theorem version_overflow_still_sets_bits:
  "decimal_part_to_uint ''i4294967296'' 1 = Inl ERANGE \<and>
   ext_err_ver (scan_ext ''i4294967296'') \<and>
   this_hwcap (parse_hart CONFIG_64BIT ''rv64i4294967296'' []) = COMPAT_HWCAP_ISA_I \<and>
   this_isa (parse_hart CONFIG_64BIT ''rv64i4294967296'' []) = BIT_MASK 8 \<and>
   COMPAT_HWCAP_ISA_I \<noteq> 0 \<and> BIT_MASK 8 \<noteq> 0"
  by code_simp

subsection \<open>Further properties\<close>

text \<open>
  The availability query on a non-negative index, for a bitmap that holds at least
  \<open>RISCV_ISA_EXT_MAX\<close> bits: the result is whether the index is below
  \<open>RISCV_ISA_EXT_MAX\<close> and the bit is set in the bitmap consulted (the caller's, or the
  host's for NULL).
\<close>

theorem extension_available_nonnegative:
  "0 \<le> bit_nr \<and>
   ext_max \<le> 64 * int (length (case isa_bitmap of Some b \<Rightarrow> b | None \<Rightarrow> host_isa)) \<longrightarrow>
   riscv_isa_extension_available ext_max host_isa isa_bitmap bit_nr =
     Inr (bit_nr < ext_max \<and>
          bit ((case isa_bitmap of Some b \<Rightarrow> b | None \<Rightarrow> host_isa) ! (nat bit_nr div 64))
              (nat bit_nr mod 64))"
  by (auto simp: riscv_isa_extension_available_def test_bit_def Let_def)

theorem extension_available_nonnegative_witness:
  "(0::int) \<le> 2 \<and> (64::int) \<le> 64 * int (length [5::ulong]) \<and>
   riscv_isa_extension_available 64 [5] None 2 = Inr True \<and>
   (0::int) \<le> 64 \<and>
   riscv_isa_extension_available 64 [5] (Some [7]) 64 = Inr False"
  using extension_available_nonnegative
          [where bit_nr = 2 and ext_max = 64 and isa_bitmap = None and host_isa = "[5]"]
        extension_available_nonnegative
          [where bit_nr = 64 and ext_max = 64 and isa_bitmap = "Some [7]" and host_isa = "[5]"]
  by (simp add: numeral_2_eq_2)

text \<open>
  With no contributing cpu node (none at all, none usable, or none with a descriptor) the
  frozen mask and ISA word are zero and the floating-point key stays off.
\<close>

theorem no_contributing_hart:
  "contributing nodes = [] \<longrightarrow>
   elf_hwcap (riscv_fill_hwcap cfg nodes) = 0 \<and>
   riscv_isa (riscv_fill_hwcap cfg nodes) = 0 \<and>
   \<not> cpu_hwcap_fpu (riscv_fill_hwcap cfg nodes)"
  by (simp add: fill_elf fill_isa fill_fpu bit_fill_elf hart_caps_def hart_isas_def)

theorem no_contributing_hart_witness:
  "contributing [\<lparr>hartid_ok = False, riscv_isa_prop = Some ''rv64imafdc''\<rparr>,
                 \<lparr>hartid_ok = True, riscv_isa_prop = None\<rparr>] = [] \<and>
   elf_hwcap (riscv_fill_hwcap CONFIG_64BIT
      [\<lparr>hartid_ok = False, riscv_isa_prop = Some ''rv64imafdc''\<rparr>,
       \<lparr>hartid_ok = True, riscv_isa_prop = None\<rparr>]) = 0 \<and>
   riscv_isa (riscv_fill_hwcap CONFIG_64BIT
      [\<lparr>hartid_ok = False, riscv_isa_prop = Some ''rv64imafdc''\<rparr>,
       \<lparr>hartid_ok = True, riscv_isa_prop = None\<rparr>]) = 0 \<and>
   \<not> cpu_hwcap_fpu (riscv_fill_hwcap CONFIG_64BIT
      [\<lparr>hartid_ok = False, riscv_isa_prop = Some ''rv64imafdc''\<rparr>,
       \<lparr>hartid_ok = True, riscv_isa_prop = None\<rparr>])"
  using no_contributing_hart[of "[\<lparr>hartid_ok = False, riscv_isa_prop = Some ''rv64imafdc''\<rparr>,
       \<lparr>hartid_ok = True, riscv_isa_prop = None\<rparr>]" CONFIG_64BIT]
  by simp

end
